theory Spec2Isabelle
  imports Complex_Main "HOL-Library.Word"
begin

unbundle bit_operations_syntax

section \<open>Conventions of the embedding\<close>

text \<open>
  The TypeScript sources of hd-canvas are embedded function by function.

  \<^item> A JavaScript \<open>number\<close> is a binary64 floating-point number: see \<open>number\<close> below. Every
    arithmetic operation rounds its exact result to the nearest binary64 value, overflows
    to an infinity, and follows the rules of IEEE 754 on the infinities and NaN.
  \<^item> Coordinates, widths, heights and indices, which the code keeps integral, are \<open>int\<close>.
  \<^item> A \<open>Uint8Array\<close> is an \<open>8 word list\<close>, a \<open>Uint16Array\<close> a \<open>16 word list\<close>, a
    \<open>Uint32Array\<close> entry a \<open>32 word\<close>; a store into them wraps as \<open>word_of_int\<close> does.
  \<^item> Every \<open>throw\<close> of the source is an \<open>Inl\<close> of the type \<open>error\<close>.
  \<^item> A read beyond the end of a typed array does not raise in JavaScript, it yields
    \<open>undefined\<close>; the model reads \<^term>\<open>undefined\<close> there, about which nothing can be proved.
    A write beyond the end is ignored, in JavaScript and in the model.
\<close>

datatype error =
    OutOfBounds
  | UnknownAlgorithm
  | InvalidGamma
  | InvalidOutputDepth
  | NotAValidPNG
  | SetOutOfRange
  | InvalidDimensions
  | InvalidDpi
  | DataLengthMismatch
  | Depth16RequiresUint16
  | Depth8RequiresUint8
  | UnsupportedFormat
  | InvalidArrayLength
  | EncoderFailed

section \<open>JavaScript numbers\<close>

text \<open>
  A number is a finite binary64 value, given by the real number it denotes, or one of the
  infinities, or NaN. The two zeros of binary64 are one number here: the sign of a zero is
  not represented. The numbers 0 and 1 are written \<open>0\<close> and \<open>1\<close>.
\<close>

datatype number = Fin real | PInf | NInf | NaN

instantiation number :: "{zero, one}"
begin

definition zero_number :: number where
  "zero_number = Fin 0"

definition one_number :: number where
  "one_number = Fin 1"

instance ..

end

text \<open>
  Rounding to the nearest value of a binary format with \<open>p\<close> significant bits and least
  exponent \<open>emin\<close>, ties to even: the values near \<open>v\<close> are the multiples of
  \<open>ulp = 2 ^ (e - (p - 1))\<close>, where \<open>e\<close> is the exponent of \<open>v\<close>, not below \<open>emin\<close> (the
  subnormal numbers share the least exponent). A rounded value at or beyond the limit of
  the format is an infinity. For binary64, \<open>p = 53\<close>, \<open>emin = -1022\<close> and the limit is
  \<open>2 ^ 1024\<close>; for binary32, \<open>p = 24\<close>, \<open>emin = -126\<close> and the limit is \<open>2 ^ 128\<close>.
\<close>

definition round_half_even :: "real \<Rightarrow> int" where
  "round_half_even x =
     (let f = \<lfloor>x\<rfloor>; d = x - of_int f
      in if d < 1 / 2 then f else if d > 1 / 2 then f + 1 else if even f then f else f + 1)"

definition round_to :: "nat \<Rightarrow> int \<Rightarrow> real \<Rightarrow> real" where
  "round_to p emin v =
     (if v = 0 then 0
      else
        let e = max \<lfloor>log 2 \<bar>v\<bar>\<rfloor> emin;
            ulp = 2 powi (e - (int p - 1))
        in of_int (round_half_even (v / ulp)) * ulp)"

definition overflow_threshold :: real where
  "overflow_threshold = 2 ^ 1024"

definition overflow :: "real \<Rightarrow> real \<Rightarrow> number" where
  "overflow limit r =
     (if limit \<le> r then PInf
      else if r \<le> - limit then NInf
      else Fin r)"

definition binary64 :: "real \<Rightarrow> number" where
  "binary64 v = overflow overflow_threshold (round_to 53 (- 1022) v)"

definition binary32 :: "real \<Rightarrow> number" where
  "binary32 v = overflow (2 ^ 128) (round_to 24 (- 126) v)"

text \<open>
  A decimal literal of the source, such as \<open>2.51\<close>, denotes the binary64 value nearest
  to it. A literal that is itself a binary64 value, such as \<open>0.5\<close> or \<open>255\<close>, is written
  with \<open>Fin\<close>.
\<close>

definition lit :: "real \<Rightarrow> number" where
  "lit v = binary64 v"

text \<open>The numbers that a variable can hold: the finite ones are binary64 values.\<close>

definition representable :: "number \<Rightarrow> bool" where
  "representable x = (case x of Fin v \<Rightarrow> binary64 v = Fin v | PInf \<Rightarrow> True | NInf \<Rightarrow> True | NaN \<Rightarrow> True)"

definition is_finite :: "number \<Rightarrow> bool" where
  "is_finite x = (case x of Fin v \<Rightarrow> True | PInf \<Rightarrow> False | NInf \<Rightarrow> False | NaN \<Rightarrow> False)"

text \<open>The operators \<open>+\<close>, \<open>-\<close>, \<open>*\<close>, \<open>/\<close>, \<open><\<close> and \<open><=\<close>. A comparison with NaN is false.\<close>

fun n_add :: "number \<Rightarrow> number \<Rightarrow> number" where
  "n_add (Fin x) (Fin y) = binary64 (x + y)"
| "n_add NaN _ = NaN"
| "n_add _ NaN = NaN"
| "n_add PInf NInf = NaN"
| "n_add NInf PInf = NaN"
| "n_add PInf _ = PInf"
| "n_add _ PInf = PInf"
| "n_add NInf _ = NInf"
| "n_add _ NInf = NInf"

fun n_sub :: "number \<Rightarrow> number \<Rightarrow> number" where
  "n_sub (Fin x) (Fin y) = binary64 (x - y)"
| "n_sub NaN _ = NaN"
| "n_sub _ NaN = NaN"
| "n_sub PInf PInf = NaN"
| "n_sub NInf NInf = NaN"
| "n_sub PInf _ = PInf"
| "n_sub _ PInf = NInf"
| "n_sub NInf _ = NInf"
| "n_sub _ NInf = PInf"

fun n_mult :: "number \<Rightarrow> number \<Rightarrow> number" where
  "n_mult (Fin x) (Fin y) = binary64 (x * y)"
| "n_mult NaN _ = NaN"
| "n_mult _ NaN = NaN"
| "n_mult (Fin x) PInf = (if 0 < x then PInf else if x < 0 then NInf else NaN)"
| "n_mult (Fin x) NInf = (if 0 < x then NInf else if x < 0 then PInf else NaN)"
| "n_mult PInf (Fin y) = (if 0 < y then PInf else if y < 0 then NInf else NaN)"
| "n_mult NInf (Fin y) = (if 0 < y then NInf else if y < 0 then PInf else NaN)"
| "n_mult PInf PInf = PInf"
| "n_mult NInf NInf = PInf"
| "n_mult PInf NInf = NInf"
| "n_mult NInf PInf = NInf"

fun n_div :: "number \<Rightarrow> number \<Rightarrow> number" where
  "n_div (Fin x) (Fin y) =
     (if y = 0 then (if 0 < x then PInf else if x < 0 then NInf else NaN) else binary64 (x / y))"
| "n_div NaN _ = NaN"
| "n_div _ NaN = NaN"
| "n_div (Fin x) PInf = Fin 0"
| "n_div (Fin x) NInf = Fin 0"
| "n_div PInf (Fin y) = (if 0 \<le> y then PInf else NInf)"
| "n_div NInf (Fin y) = (if 0 \<le> y then NInf else PInf)"
| "n_div PInf PInf = NaN"
| "n_div PInf NInf = NaN"
| "n_div NInf PInf = NaN"
| "n_div NInf NInf = NaN"

fun n_less :: "number \<Rightarrow> number \<Rightarrow> bool" where
  "n_less (Fin x) (Fin y) = (x < y)"
| "n_less NaN _ = False"
| "n_less _ NaN = False"
| "n_less NInf NInf = False"
| "n_less NInf _ = True"
| "n_less PInf _ = False"
| "n_less (Fin x) PInf = True"
| "n_less (Fin x) NInf = False"

fun n_le :: "number \<Rightarrow> number \<Rightarrow> bool" where
  "n_le (Fin x) (Fin y) = (x \<le> y)"
| "n_le NaN _ = False"
| "n_le _ NaN = False"
| "n_le NInf _ = True"
| "n_le _ PInf = True"
| "n_le PInf _ = False"
| "n_le (Fin x) NInf = False"

text \<open>
  \<open>Math.round\<close>: the nearest integer, a half rounded up, as \<^const>\<open>round\<close> does; the
  infinities and NaN are returned as they are.
\<close>

definition Math_round :: "number \<Rightarrow> number" where
  "Math_round x = (case x of Fin v \<Rightarrow> Fin (of_int (round v)) | PInf \<Rightarrow> PInf | NInf \<Rightarrow> NInf | NaN \<Rightarrow> NaN)"

text \<open>
  \<open>Math.pow\<close>, case by case as ECMAScript lists them (\<open>Number::exponentiate\<close>). Where the
  standard asks for an approximation of the power, the model takes the binary64 value
  nearest to it.
\<close>

definition Math_pow :: "number \<Rightarrow> number \<Rightarrow> number" where
  "Math_pow base exponent =
     (case exponent of
        NaN \<Rightarrow> NaN
      | PInf \<Rightarrow>
          (case base of
             NaN \<Rightarrow> NaN
           | Fin x \<Rightarrow> if 1 < \<bar>x\<bar> then PInf else if \<bar>x\<bar> = 1 then NaN else 0
           | PInf \<Rightarrow> PInf
           | NInf \<Rightarrow> PInf)
      | NInf \<Rightarrow>
          (case base of
             NaN \<Rightarrow> NaN
           | Fin x \<Rightarrow> if 1 < \<bar>x\<bar> then 0 else if \<bar>x\<bar> = 1 then NaN else PInf
           | PInf \<Rightarrow> 0
           | NInf \<Rightarrow> 0)
      | Fin y \<Rightarrow>
          if y = 0 then 1
          else
            (case base of
               NaN \<Rightarrow> NaN
             | PInf \<Rightarrow> if 0 < y then PInf else 0
             | NInf \<Rightarrow>
                 if 0 < y then (if of_int \<lfloor>y\<rfloor> = y \<and> odd \<lfloor>y\<rfloor> then NInf else PInf) else 0
             | Fin x \<Rightarrow>
                 if x = 0 then (if 0 < y then 0 else PInf)
                 else if 0 < x then binary64 (x powr y)
                 else if of_int \<lfloor>y\<rfloor> = y then binary64 (x powi \<lfloor>y\<rfloor>)
                 else NaN))"

text \<open>
  The conversions of a number to an integer: \<open>| 0\<close> (ToInt32), and the stores into a
  \<open>Uint8Array\<close>, a \<open>Uint16Array\<close> and through \<open>DataView.setUint32\<close>. A finite number is
  truncated toward zero and taken modulo \<open>2 ^ 32\<close>, \<open>2 ^ 8\<close> or \<open>2 ^ 16\<close>; the infinities
  and NaN become 0.
\<close>

definition trunc_toward_zero :: "real \<Rightarrow> int" where
  "trunc_toward_zero v = (if 0 \<le> v then \<lfloor>v\<rfloor> else \<lceil>v\<rceil>)"

definition ToInt32 :: "number \<Rightarrow> int" where
  "ToInt32 x = (case x of Fin v \<Rightarrow> sint (word_of_int (trunc_toward_zero v) :: 32 word) | PInf \<Rightarrow> 0 | NInf \<Rightarrow> 0 | NaN \<Rightarrow> 0)"

definition ToUint32 :: "number \<Rightarrow> 32 word" where
  "ToUint32 x = (case x of Fin v \<Rightarrow> word_of_int (trunc_toward_zero v) | PInf \<Rightarrow> 0 | NInf \<Rightarrow> 0 | NaN \<Rightarrow> 0)"

definition ToUint16 :: "number \<Rightarrow> 16 word" where
  "ToUint16 x = (case x of Fin v \<Rightarrow> word_of_int (trunc_toward_zero v) | PInf \<Rightarrow> 0 | NInf \<Rightarrow> 0 | NaN \<Rightarrow> 0)"

definition ToUint8 :: "number \<Rightarrow> 8 word" where
  "ToUint8 x = (case x of Fin v \<Rightarrow> word_of_int (trunc_toward_zero v) | PInf \<Rightarrow> 0 | NInf \<Rightarrow> 0 | NaN \<Rightarrow> 0)"

section \<open>ToneMapper.ts: the built-in range-compression functions\<close>

text \<open>\<^verbatim>\<open>return v < 0 ? 0 : v > 1 ? 1 : v;\<close>\<close>

definition clamp :: "number \<Rightarrow> number" where
  "clamp v = (if n_less v 0 then 0 else if n_less 1 v then 1 else v)"

text \<open>\<^verbatim>\<open>if (v < 0) return 0; return v / (1 + v);\<close>\<close>

definition reinhard :: "number \<Rightarrow> number" where
  "reinhard v = (if n_less v 0 then 0 else n_div v (n_add 1 v))"

text \<open>
  \<^verbatim>\<open>if (v < 0) return 0;
  const mapped = (v * (a * v + b)) / (v * (c * v + d) + e);
  return mapped < 0 ? 0 : mapped > 1 ? 1 : mapped;\<close>
  with a = 2.51, b = 0.03, c = 2.43, d = 0.59, e = 0.14.
\<close>

definition aces :: "number \<Rightarrow> number" where
  "aces v =
     (if n_less v 0 then 0
      else
        let a = lit (251 / 100); b = lit (3 / 100); c = lit (243 / 100); d = lit (59 / 100);
            e = lit (14 / 100);
            mapped = n_div (n_mult v (n_add (n_mult a v) b))
                           (n_add (n_mult v (n_add (n_mult c v) d)) e)
        in if n_less mapped 0 then 0
           else if n_less 1 mapped then 1
           else mapped)"

section \<open>ColorBuffer.ts: the buffer\<close>

text \<open>
  \<^verbatim>\<open>export type ColorDepth = 32 | 64;\<close> and the fields of \<open>IColorBuffer\<close>. The data of a
  buffer of depth 32 is a \<open>Float32Array\<close>, of depth 64 a \<open>Float64Array\<close>.
\<close>

datatype ColorDepth = D32 | D64

record IColorBuffer =
  width :: int
  height :: int
  depth :: ColorDepth
  data :: "number list"

text \<open>Reading index \<open>i\<close> of a typed array: \<open>undefined\<close> outside of it.\<close>

definition rd :: "'a list \<Rightarrow> int \<Rightarrow> 'a" where
  "rd xs i = (if 0 \<le> i \<and> i < int (length xs) then xs ! nat i else undefined)"

text \<open>
  A store into a \<open>Float32Array\<close> rounds the number to the nearest binary32 value, ties
  to even, as \<open>Math.fround\<close> does: a finite number beyond the binary32 range is stored as
  an infinity, the infinities and NaN are stored as they are. A store into a
  \<open>Float64Array\<close> keeps the number.
\<close>

definition fround :: "number \<Rightarrow> number" where
  "fround x = (case x of Fin v \<Rightarrow> binary32 v | PInf \<Rightarrow> PInf | NInf \<Rightarrow> NInf | NaN \<Rightarrow> NaN)"

definition store :: "ColorDepth \<Rightarrow> number \<Rightarrow> number" where
  "store d v = (case d of D32 \<Rightarrow> fround v | D64 \<Rightarrow> v)"

text \<open>\<open>data[i] = v\<close> on the data of a buffer of depth \<open>d\<close>; ignored outside of the array.\<close>

definition wr :: "ColorDepth \<Rightarrow> number list \<Rightarrow> int \<Rightarrow> number \<Rightarrow> number list" where
  "wr d xs i v = (if 0 \<le> i then xs[nat i := store d v] else xs)"

text \<open>
  The constructor: width and height must be positive integers (the model has them as
  \<open>int\<close>), the data is \<open>width * height * 4\<close> zeros.
\<close>

definition new_ColorBuffer :: "int \<Rightarrow> int \<Rightarrow> ColorDepth \<Rightarrow> error + IColorBuffer" where
  "new_ColorBuffer w h d =
     (if w \<le> 0 then Inl InvalidDimensions
      else if h \<le> 0 then Inl InvalidDimensions
      else Inr \<lparr>width = w, height = h, depth = d, data = replicate (nat (w * h * 4)) 0\<rparr>)"

text \<open>
  \<^verbatim>\<open>if (x < 0 || x >= this.width || y < 0 || y >= this.height) throw new RangeError(...);
  return (y * this.width + x) * 4;\<close>
\<close>

definition offset :: "IColorBuffer \<Rightarrow> int \<Rightarrow> int \<Rightarrow> error + int" where
  "offset buf x y =
     (if x < 0 \<or> x \<ge> width buf \<or> y < 0 \<or> y \<ge> height buf then Inl OutOfBounds
      else Inr ((y * width buf + x) * 4))"

type_synonym RGBA = "number \<times> number \<times> number \<times> number"

text \<open>
  The four stores of \<open>setPixel\<close> and \<open>setPixelUnchecked\<close> at index \<open>i\<close>. The colour is
  passed whole: the default \<open>a = 1.0\<close> of the source is an alpha of 1 here.
\<close>

definition put4 :: "IColorBuffer \<Rightarrow> int \<Rightarrow> RGBA \<Rightarrow> IColorBuffer" where
  "put4 buf i c =
     (case c of (r, g, b, a) \<Rightarrow>
        buf\<lparr>data := wr (depth buf) (wr (depth buf) (wr (depth buf) (wr (depth buf)
                 (data buf) i r) (i + 1) g) (i + 2) b) (i + 3) a\<rparr>)"

definition setPixel :: "IColorBuffer \<Rightarrow> int \<Rightarrow> int \<Rightarrow> RGBA \<Rightarrow> error + IColorBuffer" where
  "setPixel buf x y c = (case offset buf x y of Inl e \<Rightarrow> Inl e | Inr i \<Rightarrow> Inr (put4 buf i c))"

definition getPixel :: "IColorBuffer \<Rightarrow> int \<Rightarrow> int \<Rightarrow> error + RGBA" where
  "getPixel buf x y =
     (case offset buf x y of
        Inl e \<Rightarrow> Inl e
      | Inr i \<Rightarrow> Inr (rd (data buf) i, rd (data buf) (i + 1), rd (data buf) (i + 2),
                       rd (data buf) (i + 3)))"

text \<open>\<open>setPixelUnchecked\<close>: \<^verbatim>\<open>const i = (y * this.width + x) * 4;\<close> and the same four stores.\<close>

definition setPixelUnchecked :: "IColorBuffer \<Rightarrow> int \<Rightarrow> int \<Rightarrow> RGBA \<Rightarrow> IColorBuffer" where
  "setPixelUnchecked buf x y c = put4 buf ((y * width buf + x) * 4) c"

text \<open>
  \<^verbatim>\<open>export type BlendMode = 'normal' | 'add' | 'multiply';\<close>
  The \<open>default\<close> branch of the \<open>switch\<close> is not reachable from a value of this type.
\<close>

datatype BlendMode = Normal | Add | Multiply

text \<open>
  The body that \<open>blendPixel\<close>, \<open>blendPixelUnchecked\<close> and the loop of \<open>blendRowUnchecked\<close>
  share, once the index \<open>i\<close> of the destination pixel is known:
  \<^verbatim>\<open>const dstR = data[i]; const dstG = data[i + 1]; const dstB = data[i + 2]; const dstA = data[i + 3];
  switch (mode) {
    case 'normal':   blendedR = r;        blendedG = g;        blendedB = b;        break;
    case 'add':      blendedR = dstR + r; blendedG = dstG + g; blendedB = dstB + b; break;
    case 'multiply': blendedR = dstR * r; blendedG = dstG * g; blendedB = dstB * b; break;
  }
  const outA = a + dstA * (1 - a);
  if (outA === 0) {
    data[i] = 0; data[i + 1] = 0; data[i + 2] = 0; data[i + 3] = 0;
  } else {
    data[i]     = (blendedR * a + dstR * dstA * (1 - a)) / outA;
    data[i + 1] = (blendedG * a + dstG * dstA * (1 - a)) / outA;
    data[i + 2] = (blendedB * a + dstB * dstA * (1 - a)) / outA;
    data[i + 3] = outA;
  }\<close>
  The product \<open>dstR * dstA * (1 - a)\<close> is \<open>(dstR * dstA) * (1 - a)\<close>.
\<close>

definition blend_at :: "IColorBuffer \<Rightarrow> int \<Rightarrow> RGBA \<Rightarrow> BlendMode \<Rightarrow> IColorBuffer" where
  "blend_at buf i c mode =
     (case c of (r, g, b, a) \<Rightarrow>
        let dstR = rd (data buf) i; dstG = rd (data buf) (i + 1);
            dstB = rd (data buf) (i + 2); dstA = rd (data buf) (i + 3);
            (blendedR, blendedG, blendedB) =
              (case mode of
                 Normal \<Rightarrow> (r, g, b)
               | Add \<Rightarrow> (n_add dstR r, n_add dstG g, n_add dstB b)
               | Multiply \<Rightarrow> (n_mult dstR r, n_mult dstG g, n_mult dstB b));
            outA = n_add a (n_mult dstA (n_sub 1 a))
        in if outA = 0 then put4 buf i (0, 0, 0, 0)
           else put4 buf i
                  (n_div (n_add (n_mult blendedR a) (n_mult (n_mult dstR dstA) (n_sub 1 a))) outA,
                   n_div (n_add (n_mult blendedG a) (n_mult (n_mult dstG dstA) (n_sub 1 a))) outA,
                   n_div (n_add (n_mult blendedB a) (n_mult (n_mult dstB dstA) (n_sub 1 a))) outA,
                   outA))"

definition blendPixel ::
  "IColorBuffer \<Rightarrow> int \<Rightarrow> int \<Rightarrow> RGBA \<Rightarrow> BlendMode \<Rightarrow> error + IColorBuffer" where
  "blendPixel buf x y c mode =
     (case offset buf x y of Inl e \<Rightarrow> Inl e | Inr i \<Rightarrow> Inr (blend_at buf i c mode))"

definition blendPixelUnchecked ::
  "IColorBuffer \<Rightarrow> int \<Rightarrow> int \<Rightarrow> RGBA \<Rightarrow> BlendMode \<Rightarrow> IColorBuffer" where
  "blendPixelUnchecked buf x y c mode = blend_at buf ((y * width buf + x) * 4) c mode"

text \<open>
  \<open>blendRowUnchecked\<close>: the loop over \<open>p\<close>, with the running index \<open>dstIdx\<close>:
  \<^verbatim>\<open>let dstIdx = (y * this.width + startX) * 4;
  for (let p = 0; p < pixelCount; p++) {
    const srcIdx = p * 4;
    const a = floats[srcIdx + 3]!;
    if (a === 0) { dstIdx += 4; continue; }
    const r = floats[srcIdx]!; const g = floats[srcIdx + 1]!; const b = floats[srcIdx + 2]!;
    ... the shared body at dstIdx ...
    dstIdx += 4;
  }\<close>
\<close>

function blendRowLoop ::
  "int \<Rightarrow> number list \<Rightarrow> BlendMode \<Rightarrow> int \<Rightarrow> int \<Rightarrow> IColorBuffer \<Rightarrow> IColorBuffer" where
  "blendRowLoop pixelCount floats mode p dstIdx buf =
     (if p < pixelCount then
        let srcIdx = p * 4;
            a = rd floats (srcIdx + 3)
        in if a = 0 then blendRowLoop pixelCount floats mode (p + 1) (dstIdx + 4) buf
           else
             let r = rd floats srcIdx; g = rd floats (srcIdx + 1); b = rd floats (srcIdx + 2)
             in blendRowLoop pixelCount floats mode (p + 1) (dstIdx + 4)
                  (blend_at buf dstIdx (r, g, b, a) mode)
      else buf)"
  by pat_completeness auto
termination
  by (relation "measure (\<lambda>(pixelCount, floats, mode, p, dstIdx, buf). nat (pixelCount - p))") auto

definition blendRowUnchecked ::
  "IColorBuffer \<Rightarrow> int \<Rightarrow> int \<Rightarrow> int \<Rightarrow> number list \<Rightarrow> BlendMode \<Rightarrow> IColorBuffer" where
  "blendRowUnchecked buf y startX pixelCount floats mode =
     blendRowLoop pixelCount floats mode 0 ((y * width buf + startX) * 4) buf"

text \<open>
  The sequence of checked calls that a row blend is compared with: for every \<open>p\<close> from
  the given one up to \<open>pixelCount - 1\<close>, in this order,
  \<open>blendPixel(startX + p, y, floats[4p], floats[4p + 1], floats[4p + 2], floats[4p + 3], mode)\<close>,
  stopping at the first call that raises. With \<open>skip\<close> set, the calls whose source alpha
  is 0 are left out.
\<close>

function blendPixels ::
  "bool \<Rightarrow> int \<Rightarrow> int \<Rightarrow> int \<Rightarrow> number list \<Rightarrow> BlendMode \<Rightarrow> int \<Rightarrow> IColorBuffer
     \<Rightarrow> error + IColorBuffer" where
  "blendPixels skip y startX pixelCount floats mode p buf =
     (if p < pixelCount then
        let c = (rd floats (p * 4), rd floats (p * 4 + 1), rd floats (p * 4 + 2),
                 rd floats (p * 4 + 3))
        in if skip \<and> rd floats (p * 4 + 3) = 0
           then blendPixels skip y startX pixelCount floats mode (p + 1) buf
           else (case blendPixel buf (startX + p) y c mode of
                   Inl e \<Rightarrow> Inl e
                 | Inr buf' \<Rightarrow> blendPixels skip y startX pixelCount floats mode (p + 1) buf')
      else Inr buf)"
  by pat_completeness auto
termination
  by (relation "measure (\<lambda>(skip, y, startX, pixelCount, floats, mode, p, buf). nat (pixelCount - p))")
    auto

text \<open>
  What the constructor establishes and every operation keeps: the length of the data,
  and that every stored number is one that the array can hold.
\<close>

definition buffer_ok :: "IColorBuffer \<Rightarrow> bool" where
  "buffer_ok buf \<longleftrightarrow>
     0 < width buf \<and> 0 < height buf
     \<and> int (length (data buf)) = width buf * height buf * 4
     \<and> list_all (\<lambda>v. representable v \<and> store (depth buf) v = v) (data buf)"

text \<open>
  The colour that a blend mode makes of a stored channel \<open>dst\<close> and a source channel \<open>src\<close>
  (\<open>blendedR\<close>, \<open>blendedG\<close>, \<open>blendedB\<close> above).
\<close>

definition blended :: "BlendMode \<Rightarrow> number \<Rightarrow> number \<Rightarrow> number" where
  "blended mode dst src =
     (case mode of Normal \<Rightarrow> src | Add \<Rightarrow> n_add dst src | Multiply \<Rightarrow> n_mult dst src)"

text \<open>Two buffers of one pixel, depth 32: white with alpha 0, and transparent black.\<close>

definition buf_white0 :: IColorBuffer where
  "buf_white0 = \<lparr>width = 1, height = 1, depth = D32, data = [1, 1, 1, 0]\<rparr>"

definition buf_zero :: IColorBuffer where
  "buf_zero = \<lparr>width = 1, height = 1, depth = D32, data = [0, 0, 0, 0]\<rparr>"

section \<open>ToneMapper.ts: the class\<close>

text \<open>
  \<open>algorithm: ToneMapAlgorithm | ToneMapFn\<close>: the name of a built-in function, or a
  function. The registry \<open>TONE_MAP_ALGORITHMS\<close> has the three keys below. The field
  \<open>outputDepth\<close> of the class is \<open>tmOutputDepth\<close>, the options having one of that name.
\<close>

datatype algorithm = Named string | Custom "number \<Rightarrow> number"

record ToneMapOptions =
  algorithm :: algorithm
  exposure :: "number option"
  gamma :: "number option"
  outputDepth :: "int option"

record ToneMapper =
  mapFn :: "number \<Rightarrow> number"
  exposureMultiplier :: number
  invGamma :: number
  tmOutputDepth :: int
  maxVal :: int

definition TONE_MAP_ALGORITHMS :: "string \<Rightarrow> (number \<Rightarrow> number) option" where
  "TONE_MAP_ALGORITHMS name =
     (if name = ''clamp'' then Some clamp
      else if name = ''reinhard'' then Some reinhard
      else if name = ''aces'' then Some aces
      else None)"

text \<open>
  The constructor: resolves the algorithm, \<open>exposureMultiplier = Math.pow(2, exposure)\<close>,
  rejects \<open>gamma <= 0\<close>, \<open>invGamma = 1 / gamma\<close>, rejects a depth other than 8 and 16,
  \<open>maxVal = outputDepth === 16 ? 65535 : 255\<close>. Defaults: exposure 0, gamma 2.2, depth 8.
\<close>

definition new_ToneMapper :: "ToneMapOptions \<Rightarrow> error + ToneMapper" where
  "new_ToneMapper options =
     (case (case algorithm options of
              Custom f \<Rightarrow> Inr f
            | Named n \<Rightarrow> (case TONE_MAP_ALGORITHMS n of
                             None \<Rightarrow> Inl UnknownAlgorithm
                           | Some f \<Rightarrow> Inr f)) of
        Inl e \<Rightarrow> Inl e
      | Inr fn \<Rightarrow>
          let ex = (case exposure options of None \<Rightarrow> 0 | Some e \<Rightarrow> e);
              g = (case gamma options of None \<Rightarrow> lit (22 / 10) | Some g \<Rightarrow> g)
          in if n_le g 0 then Inl InvalidGamma
             else
               let od = (case outputDepth options of None \<Rightarrow> 8 | Some d \<Rightarrow> d)
               in if od \<noteq> 8 \<and> od \<noteq> 16 then Inl InvalidOutputDepth
                  else Inr \<lparr>mapFn = fn, exposureMultiplier = Math_pow (Fin 2) ex,
                             invGamma = n_div 1 g, tmOutputDepth = od,
                             maxVal = (if od = 16 then 65535 else 255)\<rparr>)"

text \<open>
  \<open>mapValue\<close>: exposure, tone map, gamma:
  \<^verbatim>\<open>const exposed = v * this.exposureMultiplier;
  const mapped = this.mapFn(exposed);
  return Math.pow(mapped, this.invGamma);\<close>
\<close>

definition mapValue :: "ToneMapper \<Rightarrow> number \<Rightarrow> number" where
  "mapValue tm v =
     (let exposed = n_mult v (exposureMultiplier tm);
          mapped = mapFn tm exposed
      in Math_pow mapped (invGamma tm))"

text \<open>
  \<open>quantize\<close>: \<^verbatim>\<open>const clamped = v < 0 ? 0 : v > 1 ? 1 : v; return Math.round(clamped * this.maxVal);\<close>
\<close>

definition quantize :: "ToneMapper \<Rightarrow> number \<Rightarrow> number" where
  "quantize tm v =
     (let clamped = (if n_less v 0 then 0 else if n_less 1 v then 1 else v)
      in Math_round (n_mult clamped (Fin (real_of_int (maxVal tm)))))"

text \<open>The result of \<open>map\<close>: a \<open>Uint8Array\<close> or a \<open>Uint16Array\<close>.\<close>

datatype TypedArray = Uint8Array "8 word list" | Uint16Array "16 word list"

text \<open>
  The table of the 8-bit path, \<open>LUT_SIZE + 1\<close> entries:
  \<^verbatim>\<open>const v = i / LUT_SIZE;
  gammaLut[i] = Math.round(Math.pow(v, invGamma) * maxVal);\<close>
\<close>

definition LUT_SIZE :: nat where
  "LUT_SIZE = 4096"

definition gammaLut_entry :: "ToneMapper \<Rightarrow> nat \<Rightarrow> 8 word" where
  "gammaLut_entry tm i =
     (let v = n_div (Fin (real i)) (Fin (real LUT_SIZE))
      in ToUint8 (Math_round (n_mult (Math_pow v (invGamma tm)) (Fin (real_of_int (maxVal tm))))))"

definition gammaLut :: "ToneMapper \<Rightarrow> 8 word list" where
  "gammaLut tm = map (gammaLut_entry tm) [0..<LUT_SIZE + 1]"

text \<open>
  One colour channel of the 8-bit path:
  \<^verbatim>\<open>let mapped = mapFn(src[i]! * exposureMul);
  mapped = mapped < 0 ? 0 : mapped > 1 ? 1 : mapped;
  dst[i] = gammaLut[(mapped * LUT_SIZE + 0.5) | 0]!;\<close>
\<close>

definition lut_channel :: "ToneMapper \<Rightarrow> number \<Rightarrow> 8 word" where
  "lut_channel tm s =
     (let mapped = mapFn tm (n_mult s (exposureMultiplier tm));
          mapped = (if n_less mapped 0 then 0 else if n_less 1 mapped then 1 else mapped)
      in rd (gammaLut tm) (ToInt32 (n_add (n_mult mapped (Fin (real LUT_SIZE))) (Fin (1 / 2)))))"

text \<open>
  The alpha channel, in both paths, before the store into the result:
  \<^verbatim>\<open>Math.round((a < 0 ? 0 : a > 1 ? 1 : a) * maxVal)\<close>
\<close>

definition alpha_channel :: "ToneMapper \<Rightarrow> number \<Rightarrow> number" where
  "alpha_channel tm a =
     Math_round (n_mult (if n_less a 0 then 0 else if n_less 1 a then 1 else a)
                        (Fin (real_of_int (maxVal tm))))"

text \<open>
  One colour channel of the 16-bit path:
  \<^verbatim>\<open>const exposed = src[i + c]! * exposureMul;
  const mapped = mapFn(exposed);
  const gammaed = Math.pow(mapped, invGamma);
  const clamped = gammaed < 0 ? 0 : gammaed > 1 ? 1 : gammaed;
  dst[i + c] = Math.round(clamped * maxVal);\<close>
\<close>

definition pow_channel :: "ToneMapper \<Rightarrow> number \<Rightarrow> 16 word" where
  "pow_channel tm s =
     (let exposed = n_mult s (exposureMultiplier tm);
          mapped = mapFn tm exposed;
          gammaed = Math_pow mapped (invGamma tm);
          clamped = (if n_less gammaed 0 then 0 else if n_less 1 gammaed then 1 else gammaed)
      in ToUint16 (Math_round (n_mult clamped (Fin (real_of_int (maxVal tm))))))"

text \<open>
  \<open>map\<close>: \<open>totalValues = width * height * 4\<close>; the result array has that length (a
  negative length makes \<open>new Uint8Array\<close> raise a RangeError), and pixel \<open>p\<close> is read at
  \<open>4 * p\<close>. The result is a \<open>Uint16Array\<close> exactly when \<open>outputDepth === 16\<close>, and the
  table is used exactly when \<open>outputDepth === 8\<close>; the constructor admits no third depth,
  for which the source would store the values of the second loop into a \<open>Uint8Array\<close>.
\<close>

definition map_pixel8 :: "ToneMapper \<Rightarrow> number list \<Rightarrow> nat \<Rightarrow> 8 word list" where
  "map_pixel8 tm src p =
     (let i = 4 * int p
      in [lut_channel tm (rd src i),
          lut_channel tm (rd src (i + 1)),
          lut_channel tm (rd src (i + 2)),
          ToUint8 (alpha_channel tm (rd src (i + 3)))])"

definition map_pixel16 :: "ToneMapper \<Rightarrow> number list \<Rightarrow> nat \<Rightarrow> 16 word list" where
  "map_pixel16 tm src p =
     (let i = 4 * int p
      in [pow_channel tm (rd src i),
          pow_channel tm (rd src (i + 1)),
          pow_channel tm (rd src (i + 2)),
          ToUint16 (alpha_channel tm (rd src (i + 3)))])"

definition ToneMapper_map :: "ToneMapper \<Rightarrow> IColorBuffer \<Rightarrow> error + TypedArray" where
  "ToneMapper_map tm input =
     (let pixelCount = width input * height input;
          totalValues = pixelCount * 4;
          src = data input
      in if totalValues < 0 then Inl InvalidArrayLength
         else if tmOutputDepth tm = 8
           then Inr (Uint8Array (concat (map (map_pixel8 tm src) [0..<nat pixelCount])))
         else if tmOutputDepth tm = 16
           then Inr (Uint16Array (concat (map (map_pixel16 tm src) [0..<nat pixelCount])))
         else Inr (Uint8Array (map ucast (concat (map (map_pixel16 tm src) [0..<nat pixelCount])))))"

text \<open>
  The direct computation of a colour channel, \<open>quantize(mapValue(v))\<close>, which the table
  of the 8-bit path stands for.
\<close>

definition direct_channel :: "ToneMapper \<Rightarrow> number \<Rightarrow> number" where
  "direct_channel tm v = quantize tm (mapValue tm v)"

text \<open>
  Tone mappers that the constructor returns: algorithm clamp, exposure 0, depth 8, with
  gamma 1 and with gamma 2, and the first of them with depth 16.
\<close>

definition tm_clamp1 :: ToneMapper where
  "tm_clamp1 = \<lparr>mapFn = clamp, exposureMultiplier = 1, invGamma = 1, tmOutputDepth = 8,
                  maxVal = 255\<rparr>"


definition tm_gamma2 :: ToneMapper where
  "tm_gamma2 = \<lparr>mapFn = clamp, exposureMultiplier = 1, invGamma = Fin (1 / 2),
                  tmOutputDepth = 8, maxVal = 255\<rparr>"

section \<open>PNGExporter.ts: the pHYs chunk\<close>

type_synonym byte = "8 word"

text \<open>
  \<^verbatim>\<open>return Math.round(dpi / 0.0254);\<close>
\<close>

definition dpiToPixelsPerMeter :: "number \<Rightarrow> number" where
  "dpiToPixelsPerMeter dpi = Math_round (n_div dpi (lit (254 / 10000)))"

text \<open>
  The table of the checksum:
  \<^verbatim>\<open>for (let n = 0; n < 256; n++) {
    let c = n;
    for (let k = 0; k < 8; k++) {
      c = c & 1 ? 0xedb88320 ^ (c >>> 1) : c >>> 1;
    }
    CRC_TABLE[n] = c;
  }\<close>
\<close>

definition crc_step :: "32 word \<Rightarrow> 32 word" where
  "crc_step c = (if c AND 1 \<noteq> 0 then 0xedb88320 XOR drop_bit 1 c else drop_bit 1 c)"

definition CRC_TABLE :: "32 word list" where
  "CRC_TABLE = map (\<lambda>n. (crc_step ^^ 8) (word_of_nat n)) [0..<256]"

text \<open>
  \<^verbatim>\<open>let crc = 0xffffffff;
  for (let i = 0; i < data.length; i++) {
    crc = CRC_TABLE[(crc ^ data[i]!) & 0xff]! ^ (crc >>> 8);
  }
  return (crc ^ 0xffffffff) >>> 0;\<close>
\<close>

definition crc32_update :: "32 word \<Rightarrow> byte \<Rightarrow> 32 word" where
  "crc32_update crc b = rd CRC_TABLE (uint ((crc XOR ucast b) AND 0xff)) XOR drop_bit 8 crc"

definition crc32 :: "byte list \<Rightarrow> 32 word" where
  "crc32 bytes = foldl crc32_update 0xffffffff bytes XOR 0xffffffff"

text \<open>The number that an unsigned 32-bit value is: \<open>>>> 0\<close>.\<close>

definition uint32_number :: "32 word \<Rightarrow> number" where
  "uint32_number w = Fin (real_of_int (uint w))"

text \<open>
  \<open>DataView.setUint32(offset, value, false)\<close>: the number is converted as \<open>ToUint32\<close>
  does and written as four bytes, most significant first.
\<close>

definition be32 :: "32 word \<Rightarrow> byte list" where
  "be32 w = [ucast (drop_bit 24 w), ucast (drop_bit 16 w), ucast (drop_bit 8 w), ucast w]"

definition setUint32 :: "byte list \<Rightarrow> nat \<Rightarrow> number \<Rightarrow> byte list" where
  "setUint32 buf off v =
     (let w = ToUint32 v
      in buf[off := ucast (drop_bit 24 w), off + 1 := ucast (drop_bit 16 w),
             off + 2 := ucast (drop_bit 8 w), off + 3 := ucast w])"

text \<open>
  \<open>buildPHYsChunk\<close>: 21 zero bytes, then the length 9 at 0, "pHYs" at 4, the density at 8
  and at 12, the unit 1 at 16, and at 17 the checksum of \<open>chunk.slice(4, 17)\<close>.
\<close>

definition buildPHYsChunk :: "number \<Rightarrow> byte list" where
  "buildPHYsChunk dpi =
     (let ppm = dpiToPixelsPerMeter dpi;
          chunk = replicate 21 0;
          chunk = setUint32 chunk 0 (Fin 9);
          chunk = chunk[4 := 0x70, 5 := 0x48, 6 := 0x59, 7 := 0x73];
          chunk = setUint32 chunk 8 ppm;
          chunk = setUint32 chunk 12 ppm;
          chunk = chunk[16 := 1];
          crcData = take 13 (drop 4 chunk);
          crcVal = uint32_number (crc32 crcData)
      in setUint32 chunk 17 crcVal)"

text \<open>
  \<open>subarray(begin, end)\<close> clamps both ends to the array; \<open>target.set(source, offset)\<close>
  raises a RangeError when the source does not fit.
\<close>

definition subarray :: "'a list \<Rightarrow> nat \<Rightarrow> nat \<Rightarrow> 'a list" where
  "subarray xs b e = drop b (take e xs)"

definition typed_set :: "'a list \<Rightarrow> 'a list \<Rightarrow> nat \<Rightarrow> error + 'a list" where
  "typed_set target source off =
     (if off + length source > length target then Inl SetOutOfRange
      else Inr (take off target @ source @ drop (off + length source) target))"

text \<open>
  \<open>injectPHYs\<close>: the check of the first four bytes (an index beyond the array reads
  \<open>undefined\<close>, which differs from every byte), then the three copies into a zeroed array
  of \<open>png.length + phys.length\<close> bytes, with \<open>IHDR_END = 8 + 25\<close>.
\<close>

definition byte_at :: "byte list \<Rightarrow> nat \<Rightarrow> byte option" where
  "byte_at xs i = (if i < length xs then Some (xs ! i) else None)"

definition injectPHYs :: "byte list \<Rightarrow> number \<Rightarrow> error + byte list" where
  "injectPHYs png dpi =
     (let IHDR_END = 8 + 25
      in if byte_at png 0 \<noteq> Some 0x89 \<or> byte_at png 1 \<noteq> Some 0x50
            \<or> byte_at png 2 \<noteq> Some 0x4e \<or> byte_at png 3 \<noteq> Some 0x47
         then Inl NotAValidPNG
         else
           let phys = buildPHYsChunk dpi;
               result = replicate (length png + length phys) 0
           in case typed_set result (subarray png 0 IHDR_END) 0 of
                Inl e \<Rightarrow> Inl e
              | Inr result \<Rightarrow>
                  (case typed_set result phys IHDR_END of
                     Inl e \<Rightarrow> Inl e
                   | Inr result \<Rightarrow>
                       typed_set result (subarray png IHDR_END (length png))
                         (IHDR_END + length phys)))"

text \<open>
  The checksum as the specification words it: the reflected polynomial 0xEDB88320 applied
  bit by bit, eight steps for each byte, with initial and final value 0xFFFFFFFF.
\<close>

definition crc32_bitwise :: "byte list \<Rightarrow> 32 word" where
  "crc32_bitwise bytes =
     foldl (\<lambda>crc b. (crc_step ^^ 8) (crc XOR ucast b)) 0xffffffff bytes XOR 0xffffffff"

text \<open>The unsigned value of a sequence of bytes, most significant first.\<close>

definition be_value :: "byte list \<Rightarrow> nat" where
  "be_value bs = foldl (\<lambda>acc b. acc * 256 + unat b) 0 bs"

definition PNG_SIGNATURE :: "byte list" where
  "PNG_SIGNATURE = [0x89, 0x50, 0x4e, 0x47, 0x0d, 0x0a, 0x1a, 0x0a]"

text \<open>A 33-byte file whose first four bytes are those of a PNG and whose next four are not.\<close>

definition png_bad_signature :: "byte list" where
  "png_bad_signature = [0x89, 0x50, 0x4e, 0x47, 0, 0, 0, 0] @ replicate 25 0"

section \<open>PNGExporter.ts: export\<close>

text \<open>
  \<open>encode\<close> of the package fast-png is not part of the repository: it is a parameter of
  the model, a function from the image it is given to the bytes it returns, or to an error
  when it raises. The fields of its argument are \<open>width\<close>, \<open>height\<close>, \<open>data\<close>, \<open>depth\<close> and
  \<open>channels\<close>; those of \<open>PNGExportOptions\<close> are \<open>width\<close>, \<open>height\<close>, \<open>dpi\<close> and \<open>depth\<close>.
\<close>

record ImageData =
  img_width :: int
  img_height :: int
  img_data :: TypedArray
  img_depth :: int
  channels :: int

type_synonym encoder = "ImageData \<Rightarrow> error + byte list"

record PNGExportOptions =
  png_width :: int
  png_height :: int
  png_dpi :: number
  png_depth :: "int option"

text \<open>
  The result of \<open>export\<close>, without its \<open>filename\<close> (a string made of the width, the
  height and the dpi, which nothing reads in the pipeline).
\<close>

record PNGExportResult =
  result_data :: "byte list"
  mimeType :: string

definition array_length :: "TypedArray \<Rightarrow> nat" where
  "array_length arr = (case arr of Uint8Array bs \<Rightarrow> length bs | Uint16Array ws \<Rightarrow> length ws)"

definition is_Uint8Array :: "TypedArray \<Rightarrow> bool" where
  "is_Uint8Array arr = (case arr of Uint8Array bs \<Rightarrow> True | Uint16Array ws \<Rightarrow> False)"

definition is_Uint16Array :: "TypedArray \<Rightarrow> bool" where
  "is_Uint16Array arr = (case arr of Uint8Array bs \<Rightarrow> False | Uint16Array ws \<Rightarrow> True)"

text \<open>
  \<open>PNGExporter.export\<close>: the checks in the order of the source, the encoding with four
  channels, and the pHYs chunk. The depth defaults to 8.
\<close>

definition PNGExporter_export ::
  "encoder \<Rightarrow> TypedArray \<Rightarrow> PNGExportOptions \<Rightarrow> error + PNGExportResult" where
  "PNGExporter_export enc arr options =
     (let w = png_width options; h = png_height options; d = png_dpi options;
          dep = (case png_depth options of None \<Rightarrow> 8 | Some k \<Rightarrow> k)
      in if w \<le> 0 \<or> h \<le> 0 then Inl InvalidDimensions
         else if n_le d 0 then Inl InvalidDpi
         else if int (array_length arr) \<noteq> w * h * 4 then Inl DataLengthMismatch
         else if dep = 16 \<and> \<not> is_Uint16Array arr then Inl Depth16RequiresUint16
         else if dep = 8 \<and> \<not> is_Uint8Array arr then Inl Depth8RequiresUint8
         else
           case enc \<lparr>img_width = w, img_height = h, img_data = arr, img_depth = dep,
                      channels = 4\<rparr> of
             Inl e \<Rightarrow> Inl e
           | Inr pngBytes \<Rightarrow>
               (case injectPHYs pngBytes d of
                  Inl e \<Rightarrow> Inl e
                | Inr pngWithDpi \<Rightarrow>
                    Inr \<lparr>result_data = pngWithDpi, mimeType = ''image/png''\<rparr>))"

section \<open>ExportPipeline.ts\<close>

text \<open>
  \<open>ExportPipelineOptions\<close>: the optional \<open>toneMap\<close>, \<open>exposure\<close>, \<open>gamma\<close> and \<open>format\<close> of
  \<open>ExportOptions\<close>, with \<open>dpi\<close> and the optional \<open>onProgress\<close>. The callback is run for its
  effect: it is a function from the percentage and the state of the caller to the new
  state, and the pipeline hands the state on. A \<open>Blob\<close> is its bytes and its type.
\<close>

record ExportOptions =
  toneMap :: "string option"
  opt_exposure :: "number option"
  opt_gamma :: "number option"
  format :: "string option"

record 's ExportPipelineOptions = ExportOptions +
  dpi :: number
  onProgress :: "(real \<Rightarrow> 's \<Rightarrow> 's) option"

record Blob =
  blob_bytes :: "byte list"
  blob_type :: string

text \<open>\<open>onProgress?.(percent)\<close>\<close>

definition notify :: "(real \<Rightarrow> 's \<Rightarrow> 's) option \<Rightarrow> real \<Rightarrow> 's \<Rightarrow> 's" where
  "notify cb percent s = (case cb of None \<Rightarrow> s | Some f \<Rightarrow> f percent s)"

text \<open>
  \<open>exportBuffer\<close>. The defaults are 'reinhard', 0, 2.2 and 'png'. The result is the state
  the callback has left, with the blob or with the error that ended the run:
  \<^verbatim>\<open>if (format !== 'png') throw ...;
  onProgress?.(0);
  const toneMapper = new ToneMapper({ algorithm: toneMap, exposure, gamma, outputDepth: 8 });
  const ldrData = toneMapper.map(buffer);
  onProgress?.(50);
  const result = pngExporter.export(ldrData, { width: buffer.width, height: buffer.height, dpi, depth: 8 });
  onProgress?.(90);
  const blob = new Blob([result.data.buffer], { type: 'image/png' });
  onProgress?.(100);
  return blob;\<close>
\<close>

definition exportBuffer ::
  "encoder \<Rightarrow> IColorBuffer \<Rightarrow> 's ExportPipelineOptions \<Rightarrow> 's \<Rightarrow> 's \<times> (error + Blob)" where
  "exportBuffer enc buffer options s =
     (let tone = (case toneMap options of None \<Rightarrow> ''reinhard'' | Some t \<Rightarrow> t);
          ex = (case opt_exposure options of None \<Rightarrow> 0 | Some e \<Rightarrow> e);
          g = (case opt_gamma options of None \<Rightarrow> lit (22 / 10) | Some g \<Rightarrow> g);
          fmt = (case format options of None \<Rightarrow> ''png'' | Some f \<Rightarrow> f)
      in if fmt \<noteq> ''png'' then (s, Inl UnsupportedFormat)
         else
           let s = notify (onProgress options) 0 s
           in case new_ToneMapper \<lparr>algorithm = Named tone, exposure = Some ex, gamma = Some g,
                                    outputDepth = Some 8\<rparr> of
                Inl e \<Rightarrow> (s, Inl e)
              | Inr toneMapper \<Rightarrow>
                  (case ToneMapper_map toneMapper buffer of
                     Inl e \<Rightarrow> (s, Inl e)
                   | Inr ldrData \<Rightarrow>
                       let s = notify (onProgress options) 50 s
                       in case PNGExporter_export enc ldrData
                                 \<lparr>png_width = width buffer, png_height = height buffer,
                                    png_dpi = dpi options, png_depth = Some 8\<rparr> of
                            Inl e \<Rightarrow> (s, Inl e)
                          | Inr result \<Rightarrow>
                              let s = notify (onProgress options) 90 s;
                                  blob = \<lparr>blob_bytes = result_data result,
                                           blob_type = ''image/png''\<rparr>;
                                  s = notify (onProgress options) 100 s
                              in (s, Inr blob)))"


text \<open>
  The percentages that a run reports, in order: the state of a callback that appends
  each percentage to a list.
\<close>

definition progress_log ::
  "encoder \<Rightarrow> IColorBuffer \<Rightarrow> real list ExportPipelineOptions \<Rightarrow> real list" where
  "progress_log enc buffer options =
     fst (exportBuffer enc buffer
            (options\<lparr>onProgress := Some (\<lambda>percent log. log @ [percent])\<rparr>) [])"

text \<open>An encoder for examples: 33 bytes that begin with the PNG signature.\<close>

definition stub_encoder :: encoder where
  "stub_encoder img = Inr (PNG_SIGNATURE @ replicate 25 0)"

text \<open>
  The options of a run with every default, 300 dpi and the callback that records; and an
  encoder that raises unless it is given 8-bit data.
\<close>

definition default_options :: "real list ExportPipelineOptions" where
  "default_options = \<lparr>toneMap = None, opt_exposure = None, opt_gamma = None, format = None,
      dpi = Fin 300, onProgress = Some (\<lambda>percent log. log @ [percent])\<rparr>"


section \<open>Properties of the rounding\<close>

declare zero_number_def [simp] one_number_def [simp]

lemma round_half_even_of_int: "round_half_even (of_int n) = n"
  by (simp add: round_half_even_def)

lemma round_half_even_floor: "\<lfloor>x\<rfloor> \<le> round_half_even x"
  by (simp add: round_half_even_def Let_def)

lemma round_half_even_ceiling: "round_half_even x \<le> \<lceil>x\<rceil>"
proof (cases "x = of_int \<lfloor>x\<rfloor>")
  case True
  then have "round_half_even x = \<lfloor>x\<rfloor>"
    by (metis round_half_even_of_int)
  then show ?thesis
    by (simp add: floor_le_ceiling)
next
  case False
  then have "\<lceil>x\<rceil> = \<lfloor>x\<rfloor> + 1"
    by (metis ceiling_altdef)
  then show ?thesis
    by (simp add: round_half_even_def Let_def)
qed

lemma floor_log2_bounds:
  assumes "v \<noteq> 0"
  shows "2 powi \<lfloor>log 2 \<bar>v\<bar>\<rfloor> \<le> \<bar>v\<bar>" "\<bar>v\<bar> < 2 powi (\<lfloor>log 2 \<bar>v\<bar>\<rfloor> + 1)"
proof -
  define k where "k = \<lfloor>log 2 \<bar>v\<bar>\<rfloor>"
  have "0 < \<bar>v\<bar>" using assms by simp
  then have "2 powr real_of_int k \<le> \<bar>v\<bar> \<and> \<bar>v\<bar> < 2 powr (real_of_int k + 1)"
    using floor_log_eq_powr_iff [of "\<bar>v\<bar>" 2 k] by (simp add: k_def)
  moreover have "real_of_int k + 1 = real_of_int (k + 1)" by simp
  ultimately have "2 powi k \<le> \<bar>v\<bar> \<and> \<bar>v\<bar> < 2 powi (k + 1)"
    by (simp only: powr_real_of_int' [of 2, simplified])
  then show "2 powi \<lfloor>log 2 \<bar>v\<bar>\<rfloor> \<le> \<bar>v\<bar>" "\<bar>v\<bar> < 2 powi (\<lfloor>log 2 \<bar>v\<bar>\<rfloor> + 1)"
    by (simp_all add: k_def)
qed

lemma floor_log2_eq:
  assumes "2 powi e \<le> \<bar>v\<bar>" "\<bar>v\<bar> < 2 powi (e + 1)"
  shows "\<lfloor>log 2 \<bar>v\<bar>\<rfloor> = e"
proof -
  have "(0::real) < 2 powi e" by simp
  then have pos: "0 < \<bar>v\<bar>" using assms(1) by linarith
  have "real_of_int e + 1 = real_of_int (e + 1)" by simp
  then have "2 powr real_of_int e \<le> \<bar>v\<bar> \<and> \<bar>v\<bar> < 2 powr (real_of_int e + 1)"
    using assms by (simp only: powr_real_of_int' [of 2, simplified])
  then show ?thesis
    using floor_log_eq_powr_iff [OF pos, of 2 e] by simp
qed

lemma power_int_two_less:
  assumes "(2::real) powi a < 2 powi b"
  shows "a < b"
proof (rule ccontr)
  assume "\<not> a < b"
  then have "b \<le> a" by simp
  then have "(2::real) powi b \<le> 2 powi a"
    by (intro power_int_increasing) simp_all
  with assms show False by simp
qed

lemma round_to_eval:
  assumes "2 powi e \<le> \<bar>v\<bar>" "\<bar>v\<bar> < 2 powi (e + 1)"
  shows "round_to p emin v
           = of_int (round_half_even (v / 2 powi (max e emin - (int p - 1))))
               * 2 powi (max e emin - (int p - 1))"
proof -
  have "(0::real) < 2 powi e" by simp
  then have "0 < \<bar>v\<bar>" using assms(1) by linarith
  then have "v \<noteq> 0" by simp
  then show ?thesis
    by (simp add: round_to_def Let_def floor_log2_eq [OF assms])
qed

lemma round_to_fixed:
  assumes v: "v = of_int n * 2 powi j" and n: "\<bar>n\<bar> < 2 ^ p" and j: "emin - (int p - 1) \<le> j"
  shows "round_to p emin v = v"
proof (cases "v = 0")
  case True
  then show ?thesis by (simp add: round_to_def)
next
  case False
  define e where "e = max \<lfloor>log 2 \<bar>v\<bar>\<rfloor> emin"
  define u where "u = e - (int p - 1)"
  have "u \<le> j"
  proof (cases "emin \<le> \<lfloor>log 2 \<bar>v\<bar>\<rfloor>")
    case True
    then have e: "e = \<lfloor>log 2 \<bar>v\<bar>\<rfloor>" by (simp add: e_def)
    have "2 powi e \<le> \<bar>v\<bar>"
      unfolding e by (rule floor_log2_bounds [OF False])
    also have "\<bar>v\<bar> = real_of_int \<bar>n\<bar> * 2 powi j"
      by (simp add: v abs_mult)
    also have "\<dots> < 2 ^ p * 2 powi j"
    proof -
      have "real_of_int \<bar>n\<bar> < real_of_int (2 ^ p)"
        using n by (simp only: of_int_less_iff)
      then show ?thesis by simp
    qed
    also have "\<dots> = 2 powi (int p + j)"
      by (simp add: power_int_add)
    finally have "e < int p + j"
      by (rule power_int_two_less)
    then show ?thesis by (simp add: u_def)
  next
    case False
    then have "e = emin" by (simp add: e_def)
    then show ?thesis using j by (simp add: u_def)
  qed
  define k where "k = nat (j - u)"
  have jk: "j = u + int k"
    using \<open>u \<le> j\<close> by (simp add: k_def)
  have "v / 2 powi u = of_int n * 2 ^ k"
    by (simp add: v jk power_int_add)
  also have "\<dots> = of_int (n * 2 ^ k)"
    by simp
  finally have q: "v / 2 powi u = of_int (n * 2 ^ k)" .
  have "round_to p emin v = of_int (round_half_even (v / 2 powi u)) * 2 powi u"
    using False by (simp add: round_to_def Let_def e_def u_def)
  also have "\<dots> = of_int (n * 2 ^ k) * 2 powi u"
    by (simp only: q round_half_even_of_int)
  also have "\<dots> = v"
    by (simp add: v jk power_int_add)
  finally show ?thesis .
qed


lemma round_to_range:
  assumes "2 powi e \<le> x" "x < 2 powi (e + 1)" "emin \<le> e" "0 < p"
  shows "2 powi e \<le> round_to p emin x" "round_to p emin x \<le> 2 powi (e + 1)"
proof -
  have "(0::real) < 2 powi e" by simp
  then have x: "0 < x" using assms(1) by linarith
  then have ax: "\<bar>x\<bar> = x" by simp
  define u where "u = e - (int p - 1)"
  define t where "t = x / 2 powi u"
  have m: "max e emin = e" using assms(3) by simp
  have r: "round_to p emin x = of_int (round_half_even t) * 2 powi u"
    using round_to_eval [of e x p emin] assms(1,2) by (simp add: ax m u_def t_def)
  have ip: "int (p - 1) = int p - 1" using assms(4) by simp
  have e1: "(2::real) powi e = 2 ^ (p - 1) * 2 powi u"
  proof -
    have "e = int (p - 1) + u" by (simp only: u_def ip)
    then have "(2::real) powi e = 2 powi (int (p - 1) + u)" by simp
    also have "\<dots> = 2 ^ (p - 1) * 2 powi u" by (simp add: power_int_add del: of_nat_diff)
    finally show ?thesis .
  qed
  have e2: "(2::real) powi (e + 1) = 2 ^ p * 2 powi u"
  proof -
    have "e + 1 = int p + u" by (simp add: u_def)
    then have "(2::real) powi (e + 1) = 2 powi (int p + u)" by simp
    also have "\<dots> = 2 ^ p * 2 powi u" by (simp add: power_int_add)
    finally show ?thesis .
  qed
  have up: "(0::real) < 2 powi u" by simp
  have t1: "2 ^ (p - 1) \<le> t"
    unfolding t_def using assms(1) up by (simp add: e1 pos_le_divide_eq)
  have t2: "t \<le> 2 ^ p"
    unfolding t_def using assms(2) up by (simp add: e2 pos_divide_le_eq)
  have "real_of_int (2 ^ (p - 1)) \<le> t" using t1 by simp
  then have "2 ^ (p - 1) \<le> \<lfloor>t\<rfloor>" by (simp only: le_floor_iff)
  then have m1: "2 ^ (p - 1) \<le> round_half_even t"
    using round_half_even_floor [of t] by linarith
  have "t \<le> real_of_int (2 ^ p)" using t2 by simp
  then have "\<lceil>t\<rceil> \<le> 2 ^ p" by (simp only: ceiling_le_iff)
  then have m2: "round_half_even t \<le> 2 ^ p"
    using round_half_even_ceiling [of t] by linarith
  have "real_of_int (2 ^ (p - 1)) \<le> real_of_int (round_half_even t)"
    using m1 by (simp only: of_int_le_iff)
  then have "2 ^ (p - 1) * 2 powi u \<le> real_of_int (round_half_even t) * 2 powi u"
    using up by simp
  then show "2 powi e \<le> round_to p emin x"
    by (simp only: r e1)
  have "real_of_int (round_half_even t) \<le> real_of_int (2 ^ p)"
    using m2 by (simp only: of_int_le_iff)
  then have "real_of_int (round_half_even t) * 2 powi u \<le> 2 ^ p * 2 powi u"
    using up by simp
  then show "round_to p emin x \<le> 2 powi (e + 1)"
    by (simp only: r e2)
qed

lemma round_to_form:
  assumes "0 < p"
  shows "\<exists>n j. round_to p emin v = of_int n * 2 powi j \<and> \<bar>n\<bar> < 2 ^ p
               \<and> emin - (int p - 1) \<le> j"
proof (cases "v = 0")
  case True
  have "round_to p emin v = of_int 0 * 2 powi (emin - (int p - 1))"
    using True by (simp add: round_to_def)
  moreover have "\<bar>0 :: int\<bar> < 2 ^ p" by simp
  ultimately show ?thesis by blast
next
  case False
  define e where "e = max \<lfloor>log 2 \<bar>v\<bar>\<rfloor> emin"
  define u where "u = e - (int p - 1)"
  define t where "t = v / 2 powi u"
  define m where "m = round_half_even t"
  have r: "round_to p emin v = of_int m * 2 powi u"
    using False by (simp add: round_to_def Let_def e_def u_def t_def m_def)
  have ju: "emin - (int p - 1) \<le> u"
    by (simp add: u_def e_def)
  have up: "(0::real) < 2 powi u" by simp
  have "\<bar>v\<bar> < 2 powi (\<lfloor>log 2 \<bar>v\<bar>\<rfloor> + 1)"
    by (rule floor_log2_bounds [OF False])
  also have "\<dots> \<le> 2 powi (e + 1)"
    by (intro power_int_increasing) (simp_all add: e_def)
  also have "\<dots> = 2 ^ p * 2 powi u"
  proof -
    have "e + 1 = int p + u" by (simp add: u_def)
    then have "(2::real) powi (e + 1) = 2 powi (int p + u)" by simp
    also have "\<dots> = 2 ^ p * 2 powi u" by (simp add: power_int_add)
    finally show ?thesis .
  qed
  finally have "\<bar>v\<bar> / 2 powi u < 2 ^ p"
    using up by (simp add: pos_divide_less_eq)
  then have at: "\<bar>t\<bar> < 2 ^ p"
    by (simp add: t_def)
  have "t \<le> real_of_int (2 ^ p)" using at by simp
  then have "\<lceil>t\<rceil> \<le> 2 ^ p" by (simp only: ceiling_le_iff)
  then have m2: "m \<le> 2 ^ p"
    using round_half_even_ceiling [of t] by (simp add: m_def)
  have "real_of_int (- (2 ^ p)) \<le> t" using at by simp
  then have "- (2 ^ p) \<le> \<lfloor>t\<rfloor>" by (simp only: le_floor_iff)
  then have m1: "- (2 ^ p) \<le> m"
    using round_half_even_floor [of t] by (simp add: m_def)
  have two: "(2::real) ^ p = 2 ^ (p - 1) * 2"
    using assms by (cases p) simp_all
  have half: "(2::int) ^ (p - 1) < 2 ^ p"
    using assms by (cases p) simp_all
  have up1: "(2::real) powi (u + 1) = 2 powi u * 2"
    by (simp add: power_int_add)
  consider "\<bar>m\<bar> < 2 ^ p" | "m = 2 ^ p" | "m = - (2 ^ p)"
    using m1 m2 by linarith
  then show ?thesis
  proof cases
    case 1
    with r ju show ?thesis by blast
  next
    case 2
    have "round_to p emin v = of_int (2 ^ (p - 1)) * 2 powi (u + 1)"
      by (simp add: r 2 two up1)
    moreover have "\<bar>2 ^ (p - 1) :: int\<bar> < 2 ^ p" using half by simp
    moreover have "emin - (int p - 1) \<le> u + 1" using ju by simp
    ultimately show ?thesis by blast
  next
    case 3
    have "round_to p emin v = of_int (- (2 ^ (p - 1))) * 2 powi (u + 1)"
      by (simp add: r 3 two up1)
    moreover have "\<bar>- (2 ^ (p - 1)) :: int\<bar> < 2 ^ p" using half by simp
    moreover have "emin - (int p - 1) \<le> u + 1" using ju by simp
    ultimately show ?thesis by blast
  qed
qed

lemma round_to_idem:
  assumes "0 < p"
  shows "round_to p emin (round_to p emin v) = round_to p emin v"
proof -
  from round_to_form [OF assms, of emin v] obtain n j where
    "round_to p emin v = of_int n * 2 powi j" "\<bar>n\<bar> < 2 ^ p" "emin - (int p - 1) \<le> j"
    by blast
  then show ?thesis by (rule round_to_fixed)
qed

lemma overflow_threshold_pos: "0 < overflow_threshold"
  by (simp add: overflow_threshold_def)

lemma overflow_Fin: "- limit < r \<Longrightarrow> r < limit \<Longrightarrow> overflow limit r = Fin r"
  by (simp add: overflow_def)

lemma overflow_eq_Fin: "overflow limit r = Fin s \<Longrightarrow> s = r \<and> - limit < r \<and> r < limit"
  by (simp add: overflow_def split: if_splits)

lemma binary64_idem:
  assumes "binary64 v = Fin r"
  shows "binary64 r = Fin r"
proof -
  from assms have r: "r = round_to 53 (- 1022) v" "- overflow_threshold < r" "r < overflow_threshold"
    using overflow_eq_Fin [of overflow_threshold "round_to 53 (- 1022) v" r]
    by (simp_all add: binary64_def)
  have "round_to 53 (- 1022) r = r"
    unfolding r(1) by (rule round_to_idem) simp
  then show ?thesis
    using r(2,3) by (simp add: binary64_def overflow_Fin)
qed

lemma binary32_idem:
  assumes "binary32 v = Fin r"
  shows "binary32 r = Fin r"
proof -
  from assms have r: "r = round_to 24 (- 126) v" "- (2 ^ 128) < r" "r < 2 ^ 128"
    using overflow_eq_Fin [of "2 ^ 128" "round_to 24 (- 126) v" r]
    by (simp_all add: binary32_def)
  have "round_to 24 (- 126) r = r"
    unfolding r(1) by (rule round_to_idem) simp
  then show ?thesis
    using r(2,3) by (simp add: binary32_def overflow_Fin)
qed

lemma binary64_dyadic:
  assumes "\<bar>n\<bar> < 2 ^ 53" "k \<le> 1074"
  shows "binary64 (of_int n / 2 ^ k) = Fin (of_int n / 2 ^ k)"
proof -
  define v :: real where "v = of_int n / 2 ^ k"
  have v: "v = of_int n * 2 powi (- int k)"
    by (simp add: v_def power_int_minus divide_inverse)
  have "round_to 53 (- 1022) v = v"
  proof (rule round_to_fixed [OF v])
    show "\<bar>n\<bar> < 2 ^ 53" by fact
    show "- 1022 - (int 53 - 1) \<le> - int k" using assms(2) by simp
  qed
  moreover have "\<bar>v\<bar> < overflow_threshold"
  proof -
    have "\<bar>v\<bar> = real_of_int \<bar>n\<bar> / 2 ^ k" by (simp add: v_def)
    also have "\<dots> \<le> real_of_int \<bar>n\<bar>"
    proof -
      have "(1::real) \<le> 2 ^ k" by simp
      then have "real_of_int \<bar>n\<bar> * 1 \<le> real_of_int \<bar>n\<bar> * 2 ^ k"
        by (intro mult_left_mono) simp_all
      then show ?thesis by (simp add: divide_le_eq)
    qed
    also have "\<dots> < real_of_int (2 ^ 53)" using assms(1) by (simp only: of_int_less_iff)
    also have "\<dots> < overflow_threshold" by (simp add: overflow_threshold_def)
    finally show ?thesis .
  qed
  ultimately show ?thesis
    unfolding v_def [symmetric] by (simp add: binary64_def overflow_Fin)
qed

lemma binary32_dyadic:
  assumes "\<bar>n\<bar> < 2 ^ 24" "k \<le> 149"
  shows "binary32 (of_int n / 2 ^ k) = Fin (of_int n / 2 ^ k)"
proof -
  define v :: real where "v = of_int n / 2 ^ k"
  have v: "v = of_int n * 2 powi (- int k)"
    by (simp add: v_def power_int_minus divide_inverse)
  have "round_to 24 (- 126) v = v"
  proof (rule round_to_fixed [OF v])
    show "\<bar>n\<bar> < 2 ^ 24" by fact
    show "- 126 - (int 24 - 1) \<le> - int k" using assms(2) by simp
  qed
  moreover have "\<bar>v\<bar> < 2 ^ 128"
  proof -
    have "\<bar>v\<bar> = real_of_int \<bar>n\<bar> / 2 ^ k" by (simp add: v_def)
    also have "\<dots> \<le> real_of_int \<bar>n\<bar>"
    proof -
      have "(1::real) \<le> 2 ^ k" by simp
      then have "real_of_int \<bar>n\<bar> * 1 \<le> real_of_int \<bar>n\<bar> * 2 ^ k"
        by (intro mult_left_mono) simp_all
      then show ?thesis by (simp add: divide_le_eq)
    qed
    also have "\<dots> < real_of_int (2 ^ 24)" using assms(1) by (simp only: of_int_less_iff)
    also have "\<dots> < 2 ^ 128" by simp
    finally show ?thesis .
  qed
  ultimately show ?thesis
    unfolding v_def [symmetric] by (simp add: binary32_def overflow_Fin)
qed

lemma binary64_bounds:
  assumes "2 powi (- 1022) \<le> x" "x < 2 ^ 1023"
  shows "\<exists>r. binary64 x = Fin r \<and> x / 2 < r \<and> r \<le> 2 * x"
proof -
  have "(0::real) < 2 powi (- 1022)" by simp
  then have x: "0 < x" using assms(1) by linarith
  define e where "e = \<lfloor>log 2 \<bar>x\<bar>\<rfloor>"
  have b: "2 powi e \<le> x" "x < 2 powi (e + 1)"
    using floor_log2_bounds [of x] x by (simp_all add: e_def)
  have "(2::real) powi (- 1022) < 2 powi (e + 1)"
    using assms(1) b(2) by linarith
  then have lo: "- 1022 \<le> e"
    using power_int_two_less [of "- 1022" "e + 1"] by simp
  have "(2::real) powi e < 2 powi 1023"
    using assms(2) b(1) by simp
  then have hi: "e + 1 \<le> 1023"
    using power_int_two_less [of e 1023] by simp
  define r where "r = round_to 53 (- 1022) x"
  have r: "2 powi e \<le> r" "r \<le> 2 powi (e + 1)"
    unfolding r_def by (rule round_to_range [OF b lo], simp)+
  have "(2::real) powi (e + 1) \<le> 2 powi 1023"
    using hi by (intro power_int_increasing) simp_all
  then have "r \<le> 2 ^ 1023" using r(2) by simp
  moreover have "(2::real) ^ 1023 < overflow_threshold"
    by (simp add: overflow_threshold_def)
  moreover have "0 < r" using r(1) zero_less_power_int [of "2::real" e] by linarith
  ultimately have "binary64 x = Fin r"
    using overflow_threshold_pos by (simp add: binary64_def r_def [symmetric] overflow_Fin)
  moreover have "(2::real) powi (e + 1) = 2 powi e * 2"
    by (simp add: power_int_add)
  then have "x / 2 < r" "r \<le> 2 * x"
    using b r by simp_all
  ultimately show ?thesis by blast
qed

lemma binary64_overflow:
  assumes "overflow_threshold \<le> x"
  shows "binary64 x = PInf"
proof -
  have x: "0 < x" using assms overflow_threshold_pos by linarith
  define e where "e = \<lfloor>log 2 \<bar>x\<bar>\<rfloor>"
  have b: "2 powi e \<le> x" "x < 2 powi (e + 1)"
    using floor_log2_bounds [of x] x by (simp_all add: e_def)
  have "(2::real) powi 1024 < 2 powi (e + 1)"
    using assms b(2) by (simp add: overflow_threshold_def)
  then have lo: "1024 \<le> e"
    using power_int_two_less [of 1024 "e + 1"] by simp
  then have lo': "- 1022 \<le> e" by simp
  have "2 powi e \<le> round_to 53 (- 1022) x"
    by (rule round_to_range [OF b lo']) simp
  moreover have "(2::real) powi 1024 \<le> 2 powi e"
    using lo by (intro power_int_increasing) simp_all
  ultimately have "overflow_threshold \<le> round_to 53 (- 1022) x"
    by (simp add: overflow_threshold_def)
  then show ?thesis
    by (simp add: binary64_def overflow_def)
qed

lemma binary64_lower:
  assumes "2 powi (- 1022) \<le> x"
  shows "binary64 x = PInf \<or> (\<exists>r. binary64 x = Fin r \<and> x / 2 < r)"
proof -
  have "(0::real) < 2 powi (- 1022)" by simp
  then have x: "0 < x" using assms by linarith
  define e where "e = \<lfloor>log 2 \<bar>x\<bar>\<rfloor>"
  have b: "2 powi e \<le> x" "x < 2 powi (e + 1)"
    using floor_log2_bounds [of x] x by (simp_all add: e_def)
  have "(2::real) powi (- 1022) < 2 powi (e + 1)"
    using assms b(2) by linarith
  then have lo: "- 1022 \<le> e"
    using power_int_two_less [of "- 1022" "e + 1"] by simp
  define r where "r = round_to 53 (- 1022) x"
  have r: "2 powi e \<le> r"
    unfolding r_def by (rule round_to_range [OF b lo]) simp
  have "(2::real) powi (e + 1) = 2 powi e * 2"
    by (simp add: power_int_add)
  then have h: "x / 2 < r" using b r by simp
  then have "0 < r" using x by linarith
  then have "binary64 x = PInf \<or> binary64 x = Fin r"
    using overflow_threshold_pos by (simp add: binary64_def r_def [symmetric] overflow_def)
  with h show ?thesis by blast
qed

lemma binary64_small_bounds:
  assumes "1 / 1000 \<le> x" "x \<le> 10 ^ 300"
  shows "\<exists>r. binary64 x = Fin r \<and> x / 2 < r \<and> r \<le> 2 * x"
proof (rule binary64_bounds)
  have "(2::real) powi (- 1022) \<le> 1 / 1000"
    by (simp add: power_int_minus divide_simps)
  then show "2 powi (- 1022) \<le> x" using assms(1) by linarith
  have "(10::real) ^ 300 < 2 ^ 1023" by simp
  then show "x < 2 ^ 1023" using assms(2) by linarith
qed

lemma binary64_zero: "binary64 0 = Fin 0"
  using overflow_threshold_pos by (simp add: binary64_def round_to_def overflow_def)

lemma binary32_zero: "binary32 0 = Fin 0"
  by (simp add: binary32_def round_to_def overflow_def)

lemma binary64_of_int: "\<bar>n\<bar> < 2 ^ 53 \<Longrightarrow> binary64 (of_int n) = Fin (of_int n)"
  using binary64_dyadic [of n 0] by simp

lemma binary64_one: "binary64 1 = Fin 1"
  using binary64_of_int [of 1] by simp

lemma binary32_one: "binary32 1 = Fin 1"
  using binary32_dyadic [of 1 0] by simp

lemma representable_binary64: "representable (binary64 v)"
proof (cases "binary64 v")
  case (Fin r)
  then show ?thesis using binary64_idem [OF Fin] by (simp add: representable_def)
qed (simp_all add: representable_def)

lemma representable_zero: "representable (Fin 0)"
  by (simp add: representable_def binary64_zero)

lemma representable_one: "representable (Fin 1)"
  by (simp add: representable_def binary64_one)

lemma representable_n_add: "representable (n_add x y)"
  by (cases x; cases y) (simp_all add: representable_binary64, simp_all add: representable_def)

lemma representable_n_mult: "representable (n_mult x y)"
  by (cases x; cases y) (simp_all add: representable_binary64, simp_all add: representable_def)

lemma representable_n_div: "representable (n_div x y)"
  by (cases x; cases y) (simp_all add: representable_binary64 representable_zero, simp_all add: representable_def)

lemma n_mult_one_right: "representable x \<Longrightarrow> n_mult x (Fin 1) = x"
  by (cases x) (simp_all add: representable_def)

lemma n_add_zero_left: "representable x \<Longrightarrow> n_add (Fin 0) x = x"
  by (cases x) (simp_all add: representable_def)

lemma n_div_one_right: "representable x \<Longrightarrow> n_div x (Fin 1) = x"
  by (cases x) (simp_all add: representable_def)

lemma n_mult_zero_right: "n_mult (Fin v) (Fin 0) = Fin 0"
  by (simp add: binary64_zero)

lemma n_mult_zero_left: "n_mult (Fin 0) (Fin v) = Fin 0"
  by (simp add: binary64_zero)

lemma n_sub_one_zero: "n_sub (Fin 1) (Fin 0) = Fin 1"
  by (simp add: binary64_one)

text \<open>
  The evaluation of a rounding at a number whose exponent \<open>e\<close> is known: the rounded
  value is \<open>m\<close> units of \<open>2 ^ (e - 52)\<close>, or of \<open>2 ^ (e - 23)\<close> for binary32.
\<close>

lemma binary64_eval:
  assumes "2 powi e \<le> \<bar>v\<bar>" "\<bar>v\<bar> < 2 powi (e + 1)" "- 1022 \<le> e" "e \<le> 1022"
    and "round_half_even (v / 2 powi (e - 52)) = m" "\<bar>m\<bar> \<le> 2 ^ 53"
  shows "binary64 v = Fin (of_int m * 2 powi (e - 52))"
proof -
  define r where "r = real_of_int m * 2 powi (e - 52)"
  have m: "max e (- 1022) = e" using assms(3) by simp
  have "round_to 53 (- 1022) v = r"
    using round_to_eval [OF assms(1,2), of 53 "- 1022"] assms(5) by (simp add: m r_def)
  moreover have "\<bar>r\<bar> < overflow_threshold"
  proof -
    have "real_of_int \<bar>m\<bar> \<le> real_of_int (2 ^ 53)"
      using assms(6) by (simp only: of_int_le_iff)
    then have "real_of_int \<bar>m\<bar> * 2 powi (e - 52) \<le> 2 ^ 53 * 2 powi (e - 52)"
      by (intro mult_right_mono) simp_all
    also have "\<dots> = 2 powi (53 + (e - 52))"
      by (subst power_int_add) simp_all
    also have "\<dots> \<le> 2 powi 1023"
      using assms(4) by (intro power_int_increasing) simp_all
    also have "\<dots> < overflow_threshold"
      by (simp add: overflow_threshold_def)
    finally show ?thesis by (simp add: r_def abs_mult)
  qed
  ultimately show ?thesis
    by (simp add: binary64_def r_def [symmetric] overflow_Fin)
qed

lemma binary32_eval:
  assumes "2 powi e \<le> \<bar>v\<bar>" "\<bar>v\<bar> < 2 powi (e + 1)" "- 126 \<le> e" "e \<le> 126"
    and "round_half_even (v / 2 powi (e - 23)) = m" "\<bar>m\<bar> \<le> 2 ^ 24"
  shows "binary32 v = Fin (of_int m * 2 powi (e - 23))"
proof -
  define r where "r = real_of_int m * 2 powi (e - 23)"
  have m: "max e (- 126) = e" using assms(3) by simp
  have "round_to 24 (- 126) v = r"
    using round_to_eval [OF assms(1,2), of 24 "- 126"] assms(5) by (simp add: m r_def)
  moreover have "\<bar>r\<bar> < 2 ^ 128"
  proof -
    have "real_of_int \<bar>m\<bar> \<le> real_of_int (2 ^ 24)"
      using assms(6) by (simp only: of_int_le_iff)
    then have "real_of_int \<bar>m\<bar> * 2 powi (e - 23) \<le> 2 ^ 24 * 2 powi (e - 23)"
      by (intro mult_right_mono) simp_all
    also have "\<dots> = 2 powi (24 + (e - 23))"
      by (subst power_int_add) simp_all
    also have "\<dots> \<le> 2 powi 127"
      using assms(4) by (intro power_int_increasing) simp_all
    also have "\<dots> < 2 ^ 128"
      by simp
    finally show ?thesis by (simp add: r_def abs_mult)
  qed
  ultimately show ?thesis
    by (simp add: binary32_def r_def [symmetric] overflow_Fin)
qed


text \<open>The relative error of a rounding in the normal range is at most \<open>2 ^ -53\<close>.\<close>

lemma round_half_even_error: "\<bar>real_of_int (round_half_even x) - x\<bar> \<le> 1 / 2"
proof -
  have "real_of_int \<lfloor>x\<rfloor> \<le> x" "x < real_of_int \<lfloor>x\<rfloor> + 1"
    by linarith+
  then show ?thesis
    by (simp add: round_half_even_def Let_def)
qed

lemma binary64_error:
  assumes "2 powi (- 1022) \<le> \<bar>x\<bar>" "\<bar>x\<bar> < 2 ^ 1023"
  shows "\<exists>r. binary64 x = Fin r \<and> \<bar>r - x\<bar> \<le> \<bar>x\<bar> / 2 ^ 53"
proof -
  have "(0::real) < 2 powi (- 1022)" by simp
  then have "0 < \<bar>x\<bar>" using assms(1) by linarith
  then have x0: "x \<noteq> 0" by simp
  define e where "e = \<lfloor>log 2 \<bar>x\<bar>\<rfloor>"
  have b: "2 powi e \<le> \<bar>x\<bar>" "\<bar>x\<bar> < 2 powi (e + 1)"
    using floor_log2_bounds [OF x0] by (simp_all add: e_def)
  have "(2::real) powi (- 1022) < 2 powi (e + 1)"
    using assms(1) b(2) by linarith
  then have lo: "- 1022 \<le> e"
    using power_int_two_less [of "- 1022" "e + 1"] by simp
  define u :: real where "u = 2 powi (e - 52)"
  define m where "m = round_half_even (x / u)"
  define r where "r = real_of_int m * u"
  have up: "0 < u" by (simp add: u_def)
  have mx: "max e (- 1022) = e" using lo by simp
  have rt: "round_to 53 (- 1022) x = r"
    using round_to_eval [OF b, of 53 "- 1022"] by (simp add: mx r_def m_def u_def)
  have "\<bar>real_of_int m - x / u\<bar> \<le> 1 / 2"
    unfolding m_def by (rule round_half_even_error)
  then have "\<bar>real_of_int m - x / u\<bar> * u \<le> 1 / 2 * u"
    using up by (intro mult_right_mono) simp_all
  moreover have "\<bar>real_of_int m - x / u\<bar> * u = \<bar>r - x\<bar>"
  proof -
    have "\<bar>real_of_int m - x / u\<bar> * u = \<bar>(real_of_int m - x / u) * u\<bar>"
      using up by (simp add: abs_mult)
    also have "(real_of_int m - x / u) * u = r - x"
      using up by (simp add: r_def left_diff_distrib)
    finally show ?thesis .
  qed
  ultimately have err: "\<bar>r - x\<bar> \<le> u / 2" by simp
  have "(2::real) powi e = 2 powi (53 + (e - 53))" by simp
  also have "\<dots> = 2 ^ 53 * 2 powi (e - 53)"
    by (subst power_int_add) simp_all
  finally have pe: "(2::real) powi e = 2 ^ 53 * 2 powi (e - 53)" .
  have "u = 2 powi (1 + (e - 53))" by (simp add: u_def)
  also have "\<dots> = 2 * 2 powi (e - 53)"
    by (subst power_int_add) simp_all
  finally have "u / 2 = 2 powi e / 2 ^ 53"
    by (simp add: pe)
  also have "\<dots> \<le> \<bar>x\<bar> / 2 ^ 53"
    using b(1) by (intro divide_right_mono) simp_all
  finally have err2: "\<bar>r - x\<bar> \<le> \<bar>x\<bar> / 2 ^ 53"
    using err by linarith
  have "\<bar>x\<bar> / 2 ^ 53 \<le> \<bar>x\<bar>"
    by (simp add: divide_le_eq)
  then have "\<bar>r\<bar> \<le> 2 * \<bar>x\<bar>" using err2 by linarith
  moreover have "2 * (2::real) ^ 1023 = overflow_threshold"
    by (simp add: overflow_threshold_def)
  ultimately have "\<bar>r\<bar> < overflow_threshold"
    using assms(2) by linarith
  then have "binary64 x = Fin r"
    by (simp add: binary64_def rt overflow_Fin)
  with err2 show ?thesis by blast
qed

lemma binary64_near:
  assumes "1 / 10 ^ 300 \<le> x" "x \<le> 10 ^ 300"
  shows "\<exists>r. binary64 x = Fin r \<and> \<bar>r - x\<bar> \<le> x / 2 ^ 53"
proof -
  have "(0::real) < 1 / 10 ^ 300" by simp
  then have x: "0 < x" using assms(1) by linarith
  have "(2::real) powi (- 1022) \<le> 1 / 10 ^ 300"
    by (simp add: power_int_minus divide_simps)
  then have 1: "2 powi (- 1022) \<le> \<bar>x\<bar>" using assms(1) x by linarith
  have "(10::real) ^ 300 < 2 ^ 1023" by simp
  then have 2: "\<bar>x\<bar> < 2 ^ 1023" using assms(2) x by linarith
  from binary64_error [OF 1 2] x show ?thesis by simp
qed

text \<open>
  A binary32 number is an integer of fewer than 24 bits times a power of two; a number
  within one part in \<open>2 ^ 50\<close> of it is rounded to it.
\<close>

lemma round_half_even_near:
  assumes "\<bar>x - real_of_int n\<bar> < 1 / 2"
  shows "round_half_even x = n"
proof (cases "real_of_int n \<le> x")
  case True
  then have b: "real_of_int n \<le> x" "x < real_of_int n + 1 / 2" using assms by linarith+
  then have "\<lfloor>x\<rfloor> = n" by (intro floor_unique) linarith+
  then show ?thesis using b by (simp add: round_half_even_def Let_def)
next
  case False
  then have b: "real_of_int n - 1 / 2 < x" "x < real_of_int n" using assms by linarith+
  have e: "real_of_int (n - 1) = real_of_int n - 1" by simp
  have f: "\<lfloor>x\<rfloor> = n - 1"
  proof (rule floor_unique)
    show "real_of_int (n - 1) \<le> x" unfolding e using b by linarith
    show "x < real_of_int (n - 1) + 1" unfolding e using b by linarith
  qed
  have "x - real_of_int (n - 1) > 1 / 2" unfolding e using b by linarith
  then show ?thesis unfolding round_half_even_def Let_def f by simp
qed

lemma binary32_form:
  assumes "binary32 d = Fin d" "d \<noteq> 0"
  shows "\<exists>N. d = real_of_int N * 2 powi (max \<lfloor>log 2 \<bar>d\<bar>\<rfloor> (- 126) - 23) \<and> \<bar>N\<bar> < 2 ^ 24 \<and> N \<noteq> 0"
    and "\<bar>d\<bar> < 2 ^ 128"
proof -
  from assms(1) have r: "d = round_to 24 (- 126) d" "- (2 ^ 128) < d" "d < 2 ^ 128"
    using overflow_eq_Fin [of "2 ^ 128" "round_to 24 (- 126) d" d]
    by (simp_all add: binary32_def)
  show "\<bar>d\<bar> < 2 ^ 128" using r(2,3) by linarith
  define E where "E = max \<lfloor>log 2 \<bar>d\<bar>\<rfloor> (- 126)"
  define u :: real where "u = 2 powi (E - 23)"
  define N where "N = round_half_even (d / u)"
  have up: "0 < u" by (simp add: u_def)
  have d: "d = real_of_int N * u"
    using r(1) assms(2) by (simp add: round_to_def Let_def E_def u_def N_def)
  have N0: "N \<noteq> 0" using d assms(2) by auto
  have "\<bar>d\<bar> < 2 powi (\<lfloor>log 2 \<bar>d\<bar>\<rfloor> + 1)"
    by (rule floor_log2_bounds [OF assms(2)])
  also have "\<dots> \<le> 2 powi (E + 1)"
    by (intro power_int_increasing) (simp_all add: E_def)
  also have "\<dots> = 2 powi (24 + (E - 23))" by (simp add: add.commute)
  also have "\<dots> = 2 ^ 24 * u"
    unfolding u_def by (subst power_int_add) simp_all
  finally have "real_of_int \<bar>N\<bar> * u < 2 ^ 24 * u"
    using up by (simp add: d abs_mult)
  then have "real_of_int \<bar>N\<bar> < real_of_int (2 ^ 24)"
    using up by simp
  then have "\<bar>N\<bar> < 2 ^ 24" by (simp only: of_int_less_iff)
  with d N0 show "\<exists>N. d = real_of_int N * 2 powi (max \<lfloor>log 2 \<bar>d\<bar>\<rfloor> (- 126) - 23) \<and> \<bar>N\<bar> < 2 ^ 24 \<and> N \<noteq> 0"
    unfolding u_def E_def by blast
qed


lemma binary32_magnitude:
  assumes "binary32 d = Fin d" "d \<noteq> 0"
  shows "2 powi (- 149) \<le> \<bar>d\<bar>" "\<bar>d\<bar> < 2 ^ 128"
proof -
  define E where "E = max \<lfloor>log 2 \<bar>d\<bar>\<rfloor> (- 126)"
  from binary32_form [OF assms] obtain N where
    N: "d = real_of_int N * 2 powi (E - 23)" "N \<noteq> 0" and lt: "\<bar>d\<bar> < 2 ^ 128"
    unfolding E_def by blast
  show "\<bar>d\<bar> < 2 ^ 128" by (rule lt)
  have "1 \<le> \<bar>N\<bar>" using N(2) by linarith
  then have "real_of_int 1 \<le> real_of_int \<bar>N\<bar>" by (simp only: of_int_le_iff)
  then have "1 * 2 powi (E - 23) \<le> real_of_int \<bar>N\<bar> * 2 powi (E - 23)"
    by (intro mult_right_mono) simp_all
  moreover have "(2::real) powi (- 149) \<le> 2 powi (E - 23)"
    by (intro power_int_increasing) (simp_all add: E_def)
  moreover have "\<bar>d\<bar> = real_of_int \<bar>N\<bar> * 2 powi (E - 23)"
    by (subst N(1)) (simp add: abs_mult)
  ultimately show "2 powi (- 149) \<le> \<bar>d\<bar>" by linarith
qed

lemma binary32_near_fixed:
  assumes d: "binary32 d = Fin d" and q: "\<bar>q - d\<bar> \<le> \<bar>d\<bar> / 2 ^ 50"
  shows "binary32 q = Fin d"
proof (cases "d = 0")
  case True
  then have "q = 0" using q by simp
  then show ?thesis using True by (simp add: binary32_zero)
next
  case False
  define Ed where "Ed = max \<lfloor>log 2 \<bar>d\<bar>\<rfloor> (- 126)"
  define ud :: real where "ud = 2 powi (Ed - 23)"
  from binary32_form [OF d False] obtain N where
    N: "d = real_of_int N * ud" "\<bar>N\<bar> < 2 ^ 24" and dlt: "\<bar>d\<bar> < 2 ^ 128"
    unfolding Ed_def ud_def by blast
  have udp: "0 < ud" by (simp add: ud_def)
  have dp: "0 < \<bar>d\<bar>" using False by simp
  have ad: "\<bar>d\<bar> = real_of_int \<bar>N\<bar> * ud"
    using udp by (subst N(1)) (simp add: abs_mult)
  have qb: "\<bar>q\<bar> \<le> \<bar>d\<bar> + \<bar>d\<bar> / 2 ^ 50" "\<bar>d\<bar> - \<bar>d\<bar> / 2 ^ 50 \<le> \<bar>q\<bar>"
    using q by linarith+
  have "\<bar>d\<bar> / 2 ^ 50 \<le> \<bar>d\<bar> / 2"
    using dp by (intro divide_left_mono) simp_all
  then have qh: "\<bar>d\<bar> / 2 \<le> \<bar>q\<bar>" using qb(2) by linarith
  then have q0: "q \<noteq> 0" using dp by auto
  define Eq where "Eq = max \<lfloor>log 2 \<bar>q\<bar>\<rfloor> (- 126)"
  define uq :: real where "uq = 2 powi (Eq - 23)"
  have uqp: "0 < uq" by (simp add: uq_def)
  have top: "(2::real) powi (Ed + 1) = 2 ^ 24 * ud"
  proof -
    have "(2::real) powi (Ed + 1) = 2 powi (24 + (Ed - 23))" by (simp add: add.commute)
    also have "\<dots> = 2 ^ 24 * ud"
      unfolding ud_def by (subst power_int_add) simp_all
    finally show ?thesis .
  qed
  have A: "Eq \<le> Ed"
  proof (rule ccontr)
    assume "\<not> Eq \<le> Ed"
    then have lt: "Ed + 1 \<le> Eq" by simp
    have "- 126 \<le> Ed" by (simp add: Ed_def)
    then have "Eq = \<lfloor>log 2 \<bar>q\<bar>\<rfloor>" using lt by (simp add: Eq_def max_def split: if_splits)
    then have "2 powi Eq \<le> \<bar>q\<bar>"
      using floor_log2_bounds(1) [OF q0] by simp
    moreover have "(2::real) powi (Ed + 1) \<le> 2 powi Eq"
      using lt by (intro power_int_increasing) simp_all
    ultimately have big: "2 ^ 24 * ud \<le> \<bar>q\<bar>" using top by linarith
    have "\<bar>N\<bar> \<le> 2 ^ 24 - 1" using N(2) by simp
    then have "real_of_int \<bar>N\<bar> \<le> real_of_int (2 ^ 24 - 1)" by (simp only: of_int_le_iff)
    then have "real_of_int \<bar>N\<bar> * ud \<le> real_of_int (2 ^ 24 - 1) * ud"
      using udp by (intro mult_right_mono) simp_all
    then have "\<bar>d\<bar> \<le> 16777215 * ud" by (simp add: ad)
    with qb(1) big udp show False by simp
  qed
  have B: "Ed - 1 \<le> Eq"
  proof (cases "Ed = - 126")
    case True
    then show ?thesis by (simp add: Eq_def)
  next
    case False
    then have "Ed = \<lfloor>log 2 \<bar>d\<bar>\<rfloor>" by (simp add: Ed_def max_def split: if_splits)
    then have "2 powi Ed \<le> \<bar>d\<bar>"
      using floor_log2_bounds(1) [OF \<open>d \<noteq> 0\<close>] by simp
    moreover have "(2::real) powi Ed = 2 * 2 powi (Ed - 1)"
    proof -
      have "(2::real) powi Ed = 2 powi (1 + (Ed - 1))" by simp
      also have "\<dots> = 2 * 2 powi (Ed - 1)" by (subst power_int_add) simp_all
      finally show ?thesis .
    qed
    ultimately have "2 powi (Ed - 1) \<le> \<bar>q\<bar>" using qh by linarith
    also have "\<bar>q\<bar> < 2 powi (\<lfloor>log 2 \<bar>q\<bar>\<rfloor> + 1)"
      by (rule floor_log2_bounds [OF q0])
    finally have "Ed - 1 < \<lfloor>log 2 \<bar>q\<bar>\<rfloor> + 1"
      by (rule power_int_two_less)
    then show ?thesis by (simp add: Eq_def)
  qed
  define k where "k = nat (Ed - Eq)"
  have k: "Ed = Eq + int k" "k \<le> 1" using A B by (simp_all add: k_def)
  have uu: "ud = 2 ^ k * uq"
  proof -
    have "Ed - 23 = int k + (Eq - 23)" using k(1) by simp
    then have "ud = 2 powi (int k + (Eq - 23))" by (simp only: ud_def)
    also have "\<dots> = 2 ^ k * uq"
      unfolding uq_def by (subst power_int_add) simp_all
    finally show ?thesis .
  qed
  define M where "M = N * 2 ^ k"
  have dM: "d = real_of_int M * uq"
    by (simp add: N(1) uu M_def)
  have "(2::int) ^ k \<le> 2" using k(2) by (cases k) simp_all
  then have "\<bar>M\<bar> \<le> \<bar>N\<bar> * 2"
    unfolding M_def by (simp add: abs_mult mult_left_mono)
  then have Mb: "\<bar>M\<bar> \<le> 2 ^ 25" using N(2) by simp
  have aM: "\<bar>d\<bar> = real_of_int \<bar>M\<bar> * uq"
    using uqp by (subst dM) (simp add: abs_mult)
  have "real_of_int \<bar>M\<bar> \<le> real_of_int (2 ^ 25)" using Mb by (simp only: of_int_le_iff)
  then have Mr: "real_of_int \<bar>M\<bar> \<le> 2 ^ 25" by simp
  have "\<bar>q / uq - real_of_int M\<bar> = \<bar>q - d\<bar> / uq"
  proof -
    have "q / uq - real_of_int M = (q - d) / uq"
      using uqp by (simp add: dM diff_divide_distrib)
    then show ?thesis using uqp by (simp add: abs_divide)
  qed
  also have "\<dots> \<le> (\<bar>d\<bar> / 2 ^ 50) / uq"
    using q uqp by (intro divide_right_mono) simp_all
  also have "\<dots> = real_of_int \<bar>M\<bar> / 2 ^ 50"
    using uqp by (simp add: aM)
  also have "\<dots> \<le> 2 ^ 25 / 2 ^ 50"
    using Mr by (intro divide_right_mono) simp_all
  also have "\<dots> < 1 / 2" by simp
  finally have "round_half_even (q / uq) = M"
    by (rule round_half_even_near)
  then have "round_to 24 (- 126) q = d"
    using q0 by (simp add: round_to_def Let_def Eq_def [symmetric] uq_def [symmetric] dM)
  then show ?thesis
    using dlt by (simp add: binary32_def overflow_Fin)
qed


section \<open>Properties of the range-compression functions\<close>

lemma lit_bounds:
  assumes "1 / 1000 \<le> x" "x \<le> 10 ^ 300"
  shows "\<exists>r. lit x = Fin r \<and> x / 2 < r \<and> r \<le> 2 * x"
  unfolding lit_def by (rule binary64_small_bounds [OF assms])

lemma lit_representable: "lit x = Fin r \<Longrightarrow> binary64 r = Fin r"
  unfolding lit_def by (rule binary64_idem)

lemma tiny_le_half: "(2::real) powi (- 1022) \<le> 1 / 2"
  by (simp add: power_int_minus divide_simps)

lemma poly_overflow:
  assumes v: "10 ^ 155 \<le> v" and k: "6 / 5 \<le> k" and b: "0 \<le> b"
  shows "n_mult (Fin v) (n_add (n_mult (Fin k) (Fin v)) (Fin b)) = PInf"
proof -
  define B :: real where "B = 10 ^ 155"
  have B: "1 \<le> B" "B \<le> v" "overflow_threshold \<le> B * (3 / 10 * B)"
    using v by (simp_all add: B_def overflow_threshold_def)
  have vp: "0 < v" "1 \<le> v" using B by linarith+
  have "6 / 5 * v \<le> k * v"
    using k vp by (intro mult_right_mono) simp_all
  then have kv: "6 / 5 * v \<le> k * v" "2 powi (- 1022) \<le> k * v"
    using vp tiny_le_half by linarith+
  have s1: "n_add (n_mult (Fin k) (Fin v)) (Fin b) = PInf
            \<or> (\<exists>r. n_add (n_mult (Fin k) (Fin v)) (Fin b) = Fin r \<and> 3 / 10 * v \<le> r)"
  proof -
    from binary64_lower [OF kv(2)]
    consider "binary64 (k * v) = PInf" | r where "binary64 (k * v) = Fin r" "k * v / 2 < r"
      by blast
    then show ?thesis
    proof cases
      case 1
      then show ?thesis by simp
    next
      case (2 r)
      have r: "3 / 5 * v < r" using 2(2) kv(1) by linarith
      then have "2 powi (- 1022) \<le> r + b"
        using vp b tiny_le_half by linarith
      from binary64_lower [OF this]
      consider "binary64 (r + b) = PInf" | s where "binary64 (r + b) = Fin s" "(r + b) / 2 < s"
        by blast
      then show ?thesis
      proof cases
        case 1
        then show ?thesis using 2(1) by simp
      next
        case (2 s)
        have "3 / 10 * v \<le> s" using 2(2) r b by argo
        then show ?thesis using \<open>binary64 (k * v) = Fin r\<close> 2(1) by simp
      qed
    qed
  qed
  then show ?thesis
  proof
    assume "n_add (n_mult (Fin k) (Fin v)) (Fin b) = PInf"
    then show ?thesis using vp by simp
  next
    assume "\<exists>r. n_add (n_mult (Fin k) (Fin v)) (Fin b) = Fin r \<and> 3 / 10 * v \<le> r"
    then obtain r where r: "n_add (n_mult (Fin k) (Fin v)) (Fin b) = Fin r" "3 / 10 * v \<le> r"
      by blast
    have "3 / 10 * B \<le> r" using r(2) B by linarith
    then have "B * (3 / 10 * B) \<le> v * r"
      using B by (intro mult_mono) simp_all
    then have "overflow_threshold \<le> v * r" using B(3) by linarith
    then have "binary64 (v * r) = PInf" by (rule binary64_overflow)
    then show ?thesis unfolding r(1) by simp
  qed
qed

lemma aces_large:
  assumes "10 ^ 155 \<le> v"
  shows "aces (Fin v) = NaN"
proof -
  have vp: "(0::real) < 10 ^ 155" by simp
  then have v0: "\<not> v < 0" using assms by linarith
  obtain a where a: "lit (251 / 100) = Fin a" "6 / 5 \<le> a"
    using lit_bounds [of "251 / 100"] by auto
  obtain b where b: "lit (3 / 100) = Fin b" "0 \<le> b"
    using lit_bounds [of "3 / 100"] by auto
  obtain c where c: "lit (243 / 100) = Fin c" "6 / 5 \<le> c"
    using lit_bounds [of "243 / 100"] by auto
  obtain d where d: "lit (59 / 100) = Fin d" "0 \<le> d"
    using lit_bounds [of "59 / 100"] by auto
  obtain e where e: "lit (14 / 100) = Fin e" "0 \<le> e"
    using lit_bounds [of "14 / 100"] by auto
  have n: "n_mult (Fin v) (n_add (n_mult (Fin a) (Fin v)) (Fin b)) = PInf"
    by (rule poly_overflow [OF assms a(2) b(2)])
  have m: "n_mult (Fin v) (n_add (n_mult (Fin c) (Fin v)) (Fin d)) = PInf"
    by (rule poly_overflow [OF assms c(2) d(2)])
  show ?thesis
    unfolding aces_def Let_def a(1) b(1) c(1) d(1) e(1) n m using v0 by simp
qed

lemma lit_1e200: "\<exists>r. lit (10 ^ 200) = Fin r \<and> 10 ^ 155 \<le> r"
proof -
  from lit_bounds [of "10 ^ 200"] obtain r where "lit (10 ^ 200) = Fin r" "10 ^ 200 / 2 < r"
    by auto
  moreover have "(10::real) ^ 155 \<le> 10 ^ 200 / 2" by simp
  ultimately show ?thesis by (intro exI [of _ r]) simp
qed

text \<open>
  At 0 and at 1 the functions return what claim C8 says, and 0 at every negative number:
  \<open>reinhard(0) = 0\<close>, \<open>reinhard(1) = 0.5\<close>, \<open>aces(0) = 0\<close>.
\<close>

lemma aces_zero: "aces 0 = 0"
proof -
  obtain b where b: "lit (3 / 100) = Fin b"
    using lit_bounds [of "3 / 100"] by auto
  obtain d where d: "lit (59 / 100) = Fin d"
    using lit_bounds [of "59 / 100"] by auto
  obtain e where e: "lit (14 / 100) = Fin e" "7 / 100 < e"
    using lit_bounds [of "14 / 100"] by auto
  obtain a where a: "lit (251 / 100) = Fin a"
    using lit_bounds [of "251 / 100"] by auto
  obtain c where c: "lit (243 / 100) = Fin c"
    using lit_bounds [of "243 / 100"] by auto
  have e0: "e \<noteq> 0" using e(2) by simp
  show ?thesis
    unfolding aces_def Let_def a b c d e(1)
    using e0 by (simp add: binary64_zero lit_representable [OF b] lit_representable [OF d]
        lit_representable [OF e(1)])
qed

lemma range_compression_values:
  "reinhard 0 = 0 \<and> reinhard 1 = Fin (1 / 2) \<and> aces 0 = 0
   \<and> (\<forall>v. n_less v 0 \<longrightarrow> reinhard v = 0 \<and> aces v = 0)"
proof -
  have "binary64 2 = Fin 2" using binary64_of_int [of 2] by simp
  moreover have "binary64 (1 / 2) = Fin (1 / 2)" using binary64_dyadic [of 1 1] by simp
  ultimately have "reinhard 0 = 0" "reinhard 1 = Fin (1 / 2)"
    by (simp_all add: reinhard_def binary64_zero binary64_one)
  moreover have "\<forall>v. n_less v 0 \<longrightarrow> reinhard v = 0 \<and> aces v = 0"
    by (simp add: reinhard_def aces_def)
  ultimately show ?thesis using aces_zero by simp
qed

text \<open>
  Claim C8 fails for \<open>aces\<close> on large finite inputs: from 1e155 on, the numerator and
  the denominator overflow to Infinity, their quotient is NaN, and the final clamp returns
  NaN, which is no value of [0, 1]. So it is at \<open>aces(1e200)\<close>.
\<close>

theorem aces_overflow: "aces (lit (10 ^ 200)) = NaN"
proof -
  from lit_1e200 obtain r where "lit (10 ^ 200) = Fin r" "10 ^ 155 \<le> r"
    by blast
  then show ?thesis by (simp add: aces_large)
qed

section \<open>The clamp tone mapper on one pixel\<close>

lemma binary64_values:
  "binary64 (1 / 2) = Fin (1 / 2)" "binary64 (1 / 4) = Fin (1 / 4)" "binary64 (3 / 4) = Fin (3 / 4)"
  "binary64 1024 = Fin 1024" "binary64 2048 = Fin 2048" "binary64 3072 = Fin 3072"
  "binary64 4096 = Fin 4096"
  "binary64 (2049 / 2) = Fin (2049 / 2)" "binary64 (4097 / 2) = Fin (4097 / 2)"
  "binary64 (6145 / 2) = Fin (6145 / 2)" "binary64 (8193 / 2) = Fin (8193 / 2)"
  "binary64 (255 / 4) = Fin (255 / 4)" "binary64 (255 / 2) = Fin (255 / 2)"
  "binary64 (765 / 4) = Fin (765 / 4)" "binary64 255 = Fin 255" "binary64 65535 = Fin 65535"
  "binary64 (1 / 16384) = Fin (1 / 16384)" "binary64 (1 / 128) = Fin (1 / 128)"
  "binary64 (255 / 128) = Fin (255 / 128)"
  using binary64_dyadic [of 1 1] binary64_dyadic [of 1 2] binary64_dyadic [of 3 2]
    binary64_dyadic [of 1024 0] binary64_dyadic [of 2048 0] binary64_dyadic [of 3072 0]
    binary64_dyadic [of 4096 0]
    binary64_dyadic [of 2049 1] binary64_dyadic [of 4097 1] binary64_dyadic [of 6145 1]
    binary64_dyadic [of 8193 1]
    binary64_dyadic [of 255 2] binary64_dyadic [of 255 1] binary64_dyadic [of 765 2]
    binary64_dyadic [of 255 0] binary64_dyadic [of 65535 0]
    binary64_dyadic [of 1 14] binary64_dyadic [of 1 7] binary64_dyadic [of 255 7]
  by simp_all

lemma rd_gammaLut: "0 \<le> k \<Longrightarrow> k \<le> 4096 \<Longrightarrow> rd (gammaLut tm) k = gammaLut_entry tm (nat k)"
  unfolding rd_def gammaLut_def LUT_SIZE_def
  by (simp add: nth_map del: upt_Suc)

lemma new_ToneMapper_props:
  assumes "new_ToneMapper options = Inr tm"
  shows "tmOutputDepth tm = 8 \<or> tmOutputDepth tm = 16"
    "maxVal tm = (if tmOutputDepth tm = 16 then 65535 else 255)"
    "tmOutputDepth tm = (case outputDepth options of None \<Rightarrow> 8 | Some d \<Rightarrow> d)"
proof -
  define g where "g = (case gamma options of None \<Rightarrow> lit (22 / 10) | Some g \<Rightarrow> g)"
  define od where "od = (case outputDepth options of None \<Rightarrow> 8 | Some d \<Rightarrow> d)"
  define ex where "ex = (case exposure options of None \<Rightarrow> 0 | Some e \<Rightarrow> e)"
  define alg where "alg = (case algorithm options of
              Custom f \<Rightarrow> Inr f
            | Named n \<Rightarrow> (case TONE_MAP_ALGORITHMS n of
                             None \<Rightarrow> Inl UnknownAlgorithm
                           | Some f \<Rightarrow> Inr f))"
  have eq: "(case alg of Inl e \<Rightarrow> Inl e
      | Inr fn \<Rightarrow>
          if n_le g 0 then Inl InvalidGamma
          else if od \<noteq> 8 \<and> od \<noteq> 16 then Inl InvalidOutputDepth
          else Inr \<lparr>mapFn = fn, exposureMultiplier = Math_pow (Fin 2) ex, invGamma = n_div 1 g,
                     tmOutputDepth = od, maxVal = (if od = 16 then 65535 else 255)\<rparr>) = Inr tm"
    using assms unfolding new_ToneMapper_def Let_def g_def od_def ex_def alg_def .
  then obtain fn where fn: "alg = Inr fn"
    by (cases alg) simp_all
  from eq fn have ok: "\<not> n_le g 0" "\<not> (od \<noteq> 8 \<and> od \<noteq> 16)"
    by (simp_all split: if_splits)
  with eq fn have tm: "tm = \<lparr>mapFn = fn, exposureMultiplier = Math_pow (Fin 2) ex,
                     invGamma = n_div 1 g,
                     tmOutputDepth = od, maxVal = (if od = 16 then 65535 else 255)\<rparr>"
    by (simp split: if_splits)
  show "tmOutputDepth tm = 8 \<or> tmOutputDepth tm = 16" using ok(2) by (simp add: tm)
  show "maxVal tm = (if tmOutputDepth tm = 16 then 65535 else 255)" by (simp add: tm)
  show "tmOutputDepth tm = (case outputDepth options of None \<Rightarrow> 8 | Some d \<Rightarrow> d)"
    by (simp add: tm od_def)
qed

lemma new_clamp1:
  "new_ToneMapper \<lparr>algorithm = Named ''clamp'', exposure = Some 0, gamma = Some 1,
      outputDepth = Some 8\<rparr> = Inr tm_clamp1"
  by (simp add: new_ToneMapper_def TONE_MAP_ALGORITHMS_def tm_clamp1_def Math_pow_def binary64_one)


lemma length_concat_pixels:
  assumes "\<And>p. length (f p) = 4"
  shows "length (concat (map f [0..<n])) = 4 * n"
  by (induction n) (simp_all add: assms)

lemma concat_pixels_nth:
  assumes len: "\<And>p. length (f p) = 4" and "p < n" and "k < 4"
  shows "concat (map f [0..<n]) ! (4 * p + k) = f p ! k"
  using \<open>p < n\<close>
proof (induction n)
  case 0
  then show ?case by simp
next
  case (Suc n)
  have l: "length (concat (map f [0..<n])) = 4 * n"
    by (rule length_concat_pixels [OF len])
  show ?case
  proof (cases "p < n")
    case True
    then have "4 * p + k < 4 * n" using \<open>k < 4\<close> by simp
    then show ?thesis using Suc.IH [OF True] by (simp add: nth_append l)
  next
    case False
    then have "p = n" using Suc.prems by simp
    then show ?thesis by (simp add: nth_append l)
  qed
qed

lemma alpha_channel_8:
  assumes "maxVal tm = 255"
  shows "alpha_channel tm a = Math_round (n_mult (clamp a) (Fin 255))"
  using assms by (simp add: alpha_channel_def clamp_def)

lemma map_alpha_8:
  assumes "tmOutputDepth tm = 8" "maxVal tm = 255"
    and "0 \<le> width input * height input" "p < nat (width input * height input)"
  shows "\<exists>out. ToneMapper_map tm input = Inr (Uint8Array out)
           \<and> length out = 4 * nat (width input * height input)
           \<and> out ! (4 * p + 3)
               = ToUint8 (Math_round (n_mult (clamp (rd (data input) (4 * int p + 3))) (Fin 255)))"
proof -
  define out where "out = concat (map (map_pixel8 tm (data input)) [0..<nat (width input * height input)])"
  have len: "\<And>q. length (map_pixel8 tm (data input) q) = 4"
    by (simp add: map_pixel8_def Let_def)
  have "ToneMapper_map tm input = Inr (Uint8Array out)"
    using assms(1,3) by (simp add: ToneMapper_map_def out_def Let_def)
  moreover have "length out = 4 * nat (width input * height input)"
    unfolding out_def by (rule length_concat_pixels [OF len])
  moreover have "out ! (4 * p + 3) = map_pixel8 tm (data input) p ! 3"
    unfolding out_def by (rule concat_pixels_nth [OF len assms(4)]) simp
  then have "out ! (4 * p + 3)
      = ToUint8 (Math_round (n_mult (clamp (rd (data input) (4 * int p + 3))) (Fin 255)))"
    using alpha_channel_8 [OF assms(2)] by (simp add: map_pixel8_def Let_def)
  ultimately show ?thesis by blast
qed

lemma clamp1_entries:
  "gammaLut_entry tm_clamp1 2048 = 128" "gammaLut_entry tm_clamp1 1024 = 64"
  "gammaLut_entry tm_clamp1 3072 = 191"
  by (simp_all add: gammaLut_entry_def tm_clamp1_def LUT_SIZE_def Math_pow_def binary64_values
      Math_round_def ToUint8_def trunc_toward_zero_def round_def)

lemma clamp1_r: "lut_channel tm_clamp1 (Fin (1 / 2)) = 128"
proof -
  have "lut_channel tm_clamp1 (Fin (1 / 2)) = rd (gammaLut tm_clamp1) 2048"
    by (simp add: lut_channel_def tm_clamp1_def clamp_def LUT_SIZE_def binary64_values
        ToInt32_def trunc_toward_zero_def)
  then show ?thesis by (simp add: rd_gammaLut clamp1_entries)
qed

lemma clamp1_g: "lut_channel tm_clamp1 (Fin (1 / 4)) = 64"
proof -
  have "lut_channel tm_clamp1 (Fin (1 / 4)) = rd (gammaLut tm_clamp1) 1024"
    by (simp add: lut_channel_def tm_clamp1_def clamp_def LUT_SIZE_def binary64_values
        ToInt32_def trunc_toward_zero_def)
  then show ?thesis by (simp add: rd_gammaLut clamp1_entries)
qed

lemma clamp1_b: "lut_channel tm_clamp1 (Fin (3 / 4)) = 191"
proof -
  have "lut_channel tm_clamp1 (Fin (3 / 4)) = rd (gammaLut tm_clamp1) 3072"
    by (simp add: lut_channel_def tm_clamp1_def clamp_def LUT_SIZE_def binary64_values
        ToInt32_def trunc_toward_zero_def)
  then show ?thesis by (simp add: rd_gammaLut clamp1_entries)
qed

lemma clamp1_a: "ToUint8 (alpha_channel tm_clamp1 1) = 255"
  by (simp add: alpha_channel_def tm_clamp1_def binary64_values Math_round_def ToUint8_def
      trunc_toward_zero_def)

lemma clamp1_pixel:
  "map_pixel8 tm_clamp1 [Fin (1 / 2), Fin (1 / 4), Fin (3 / 4), 1] 0 = [128, 64, 191, 255]"
  using clamp1_r clamp1_g clamp1_b clamp1_a by (simp add: map_pixel8_def rd_def)

lemma clamp1_map:
  "ToneMapper_map tm_clamp1
       \<lparr>width = 1, height = 1, depth = D32, data = [Fin (1 / 2), Fin (1 / 4), Fin (3 / 4), 1]\<rparr>
     = Inr (Uint8Array [128, 64, 191, 255])"
proof -
  have d: "tmOutputDepth tm_clamp1 = 8" by (simp add: tm_clamp1_def)
  show ?thesis using clamp1_pixel by (simp add: ToneMapper_map_def d)
qed

text \<open>
  Claim C7. The tone mapper built with algorithm clamp, gamma 1, exposure 0 and 8-bit
  output maps the buffer of the single pixel (0.5, 0.25, 0.75, 1.0) to exactly
  (128, 64, 191, 255). For every tone mapper with 8-bit output and every pixel of every
  buffer, the alpha value of the result is \<open>Math.round(clamp01(a) * 255)\<close> of the source
  alpha \<open>a\<close>, the product being the binary64 product, stored as a byte: exposure, range
  compression and gamma play no part in it.
\<close>

theorem map_clamp_pixel:
  "new_ToneMapper \<lparr>algorithm = Named ''clamp'', exposure = Some 0, gamma = Some 1,
      outputDepth = Some 8\<rparr> = Inr tm_clamp1
   \<and> ToneMapper_map tm_clamp1
        \<lparr>width = 1, height = 1, depth = D32, data = [Fin (1 / 2), Fin (1 / 4), Fin (3 / 4), 1]\<rparr>
       = Inr (Uint8Array [128, 64, 191, 255])
   \<and> (\<forall>options tm input p.
         new_ToneMapper options = Inr tm \<and> tmOutputDepth tm = 8
         \<and> 0 \<le> width input * height input \<and> p < nat (width input * height input)
         \<longrightarrow> (\<exists>out. ToneMapper_map tm input = Inr (Uint8Array out)
                \<and> length out = 4 * nat (width input * height input)
                \<and> out ! (4 * p + 3)
                    = ToUint8 (Math_round
                        (n_mult (clamp (rd (data input) (4 * int p + 3))) (Fin 255)))))"
proof -
  have "\<exists>out. ToneMapper_map tm input = Inr (Uint8Array out)
           \<and> length out = 4 * nat (width input * height input)
           \<and> out ! (4 * p + 3)
               = ToUint8 (Math_round (n_mult (clamp (rd (data input) (4 * int p + 3))) (Fin 255)))"
    if "new_ToneMapper options = Inr tm" "tmOutputDepth tm = 8"
      "0 \<le> width input * height input" "p < nat (width input * height input)"
    for options tm input p
  proof -
    have "maxVal tm = 255"
      using new_ToneMapper_props(2) [OF that(1)] that(2) by simp
    then show ?thesis
      by (rule map_alpha_8 [OF that(2) _ that(3,4)])
  qed
  then show ?thesis
    using new_clamp1 clamp1_map by blast
qed

theorem map_clamp_pixel_witness:
  "\<exists>out. ToneMapper_map tm_clamp1
            \<lparr>width = 1, height = 1, depth = D32, data = [Fin (1 / 2), Fin (1 / 4), Fin (3 / 4), 1]\<rparr>
          = Inr (Uint8Array out)
     \<and> length out = 4 \<and> out ! 3 = 255"
proof -
  let ?buf = "\<lparr>width = 1, height = 1, depth = D32,
                 data = [Fin (1 / 2), Fin (1 / 4), Fin (3 / 4), 1 :: number]\<rparr>"
  have h: "new_ToneMapper \<lparr>algorithm = Named ''clamp'', exposure = Some 0, gamma = Some 1,
      outputDepth = Some 8\<rparr> = Inr tm_clamp1 \<and> tmOutputDepth tm_clamp1 = 8
         \<and> 0 \<le> width ?buf * height ?buf \<and> 0 < nat (width ?buf * height ?buf)"
    using new_clamp1 by (simp add: tm_clamp1_def)
  have v: "ToUint8 (Math_round (n_mult (clamp (rd (data ?buf) (4 * int 0 + 3))) (Fin 255))) = 255"
    by (simp add: rd_def clamp_def binary64_values Math_round_def ToUint8_def trunc_toward_zero_def)
  from map_clamp_pixel h obtain out where
    "ToneMapper_map tm_clamp1 ?buf = Inr (Uint8Array out)"
    "length out = 4 * nat (width ?buf * height ?buf)"
    "out ! (4 * 0 + 3)
       = ToUint8 (Math_round (n_mult (clamp (rd (data ?buf) (4 * int 0 + 3))) (Fin 255)))"
    by blast
  then show ?thesis using v by simp
qed

text \<open>
  The product of the alpha channel is the binary64 product. At the source alpha
  \<open>0.5 / 255\<close>, which is the number 282578800148737 / 144115188075855872, the exact
  product with 255 lies below one half, the binary64 product is one half, and the byte
  that is stored is 1.
\<close>

lemma lit_half_step: "lit (1 / 510) = Fin (282578800148737 / 144115188075855872)"
proof -
  have "binary64 (1 / 510) = Fin (of_int 4521260802379792 * 2 powi (- 9 - 52))"
    by (rule binary64_eval) (simp_all add: round_half_even_def Let_def power_int_minus)
  then show ?thesis
    by (simp add: lit_def power_int_minus)
qed

lemma alpha_product_rounds:
  "round (282578800148737 / 144115188075855872 * 255 :: real) = 0
   \<and> n_mult (lit (1 / 510)) (Fin 255) = Fin (1 / 2)
   \<and> ToUint8 (alpha_channel tm_clamp1 (lit (1 / 510))) = 1"
proof -
  have p: "binary64 (282578800148737 / 144115188075855872 * 255)
      = Fin (of_int 9007199254740992 * 2 powi (- 2 - 52))"
    by (rule binary64_eval) (simp_all add: round_half_even_def Let_def power_int_minus)
  then have m: "n_mult (lit (1 / 510)) (Fin 255) = Fin (1 / 2)"
    by (simp add: lit_half_step power_int_minus)
  have "alpha_channel tm_clamp1 (lit (1 / 510)) = Math_round (n_mult (lit (1 / 510)) (Fin 255))"
    by (simp add: alpha_channel_def tm_clamp1_def lit_half_step)
  then have "ToUint8 (alpha_channel tm_clamp1 (lit (1 / 510))) = 1"
    unfolding m by (simp add: Math_round_def ToUint8_def trunc_toward_zero_def round_def)
  moreover have "round (282578800148737 / 144115188075855872 * 255 :: real) = 0"
    by (simp add: round_def)
  ultimately show ?thesis using m by simp
qed

section \<open>The gamma table against the direct computation\<close>

lemma new_gamma2:
  "new_ToneMapper \<lparr>algorithm = Named ''clamp'', exposure = Some 0, gamma = Some (Fin 2),
      outputDepth = Some 8\<rparr> = Inr tm_gamma2"
  by (simp add: new_ToneMapper_def TONE_MAP_ALGORITHMS_def tm_gamma2_def Math_pow_def
      binary64_values)

lemma sqrt_small: "sqrt (1 / 16384) = 1 / 128"
  by (rule real_sqrt_unique) (simp_all add: power2_eq_square)

lemma gamma2_entry: "gammaLut_entry tm_gamma2 0 = 0"
  by (simp add: gammaLut_entry_def tm_gamma2_def LUT_SIZE_def Math_pow_def binary64_zero
      Math_round_def ToUint8_def trunc_toward_zero_def)

lemma lut_gamma2: "lut_channel tm_gamma2 (Fin (1 / 16384)) = 0"
proof -
  have "lut_channel tm_gamma2 (Fin (1 / 16384)) = rd (gammaLut tm_gamma2) 0"
    by (simp add: lut_channel_def tm_gamma2_def LUT_SIZE_def clamp_def binary64_values
        ToInt32_def trunc_toward_zero_def)
  then show ?thesis by (simp add: rd_gammaLut gamma2_entry)
qed

lemma alpha_gamma2: "ToUint8 (alpha_channel tm_gamma2 1) = 255"
  by (simp add: alpha_channel_def tm_gamma2_def binary64_values Math_round_def ToUint8_def
      trunc_toward_zero_def)

lemma mapValue_gamma2: "mapValue tm_gamma2 (Fin (1 / 16384)) = Fin (1 / 128)"
  by (simp add: mapValue_def tm_gamma2_def clamp_def Math_pow_def binary64_values
      powr_half_sqrt sqrt_small)

lemma direct_gamma2: "direct_channel tm_gamma2 (Fin (1 / 16384)) = Fin 2"
  unfolding direct_channel_def mapValue_gamma2
  by (simp add: quantize_def tm_gamma2_def binary64_values Math_round_def round_def)

lemma gamma2_map:
  "ToneMapper_map tm_gamma2
       \<lparr>width = 1, height = 1, depth = D64,
          data = [Fin (1 / 16384), Fin (1 / 16384), Fin (1 / 16384), 1]\<rparr>
     = Inr (Uint8Array [0, 0, 0, 255])"
proof -
  have d: "tmOutputDepth tm_gamma2 = 8" by (simp add: tm_gamma2_def)
  have "map_pixel8 tm_gamma2 [Fin (1 / 16384), Fin (1 / 16384), Fin (1 / 16384), 1] 0
          = [0, 0, 0, 255]"
    using lut_gamma2 alpha_gamma2 by (simp add: map_pixel8_def rd_def)
  then show ?thesis by (simp add: ToneMapper_map_def d)
qed

text \<open>
  The same tone mapper on the decimal literal \<open>0.0001\<close>. The literal and every
  intermediate result are roundings, so each is bounded rather than computed: the index
  \<open>(0.0001 * 4096 + 0.5) | 0\<close> lies below 1, and \<open>Math.pow(0.0001, 0.5) * 255\<close> lies
  strictly between 2.5 and 3.5.
\<close>

lemma lit_e4:
  "\<exists>r. lit (1 / 10000) = Fin r \<and> binary64 r = Fin r
       \<and> 1 / 10000 - 1 / 10 ^ 19 \<le> r \<and> r \<le> 1 / 10000 + 1 / 10 ^ 19"
proof -
  from binary64_near [of "1 / 10000"] obtain r where
    r: "binary64 (1 / 10000) = Fin r" "\<bar>r - 1 / 10000\<bar> \<le> 1 / 10000 / 2 ^ 53"
    by auto
  have "(1::real) / 10000 / 2 ^ 53 \<le> 1 / 10 ^ 19" by simp
  then have "1 / 10000 - 1 / 10 ^ 19 \<le> r" "r \<le> 1 / 10000 + 1 / 10 ^ 19"
    using r(2) by linarith+
  then show ?thesis
    using r(1) binary64_idem [OF r(1)] unfolding lit_def by blast
qed

lemma binary64_close:
  assumes "1 / 1000 \<le> x" "x \<le> 1000"
  shows "\<exists>r. binary64 x = Fin r \<and> x - 1 / 1000000 \<le> r \<and> r \<le> x + 1 / 1000000"
proof -
  from binary64_near [of x] assms obtain r where
    r: "binary64 x = Fin r" "\<bar>r - x\<bar> \<le> x / 2 ^ 53"
    by auto
  have "x / 2 ^ 53 \<le> 1000 / 2 ^ 53"
    using assms(2) by (intro divide_right_mono) simp_all
  also have "\<dots> \<le> 1 / 1000000" by simp
  finally have "\<bar>r - x\<bar> \<le> 1 / 1000000" using r(2) by linarith
  then have "x - 1 / 1000000 \<le> r" "r \<le> x + 1 / 1000000" by linarith+
  then show ?thesis using r(1) by blast
qed

lemma lut_e4:
  assumes r: "binary64 r = Fin r" "1 / 10000 - 1 / 10 ^ 19 \<le> r" "r \<le> 1 / 10000 + 1 / 10 ^ 19"
  shows "lut_channel tm_gamma2 (Fin r) = 0"
proof -
  have rb: "0 < r" "r < 1" using r(2,3) by simp_all
  have x1: "1 / 1000 \<le> r * 4096" "r * 4096 \<le> 1000" using r(2,3) by simp_all
  from binary64_close [OF x1] obtain r1 where
    r1: "binary64 (r * 4096) = Fin r1" "r * 4096 - 1 / 1000000 \<le> r1" "r1 \<le> r * 4096 + 1 / 1000000"
    by blast
  have rc: "1 / 10000 - 1 / 1000000 \<le> r" "r \<le> 1 / 10000 + 1 / 1000000"
    using r(2,3) by simp_all
  have r1b: "2 / 5 \<le> r1" "r1 \<le> 21 / 50" using r1(2,3) rc by linarith+
  then have x2: "1 / 1000 \<le> r1 + 1 / 2" "r1 + 1 / 2 \<le> 1000" by simp_all
  from binary64_close [OF x2] obtain r2 where
    r2: "binary64 (r1 + 1 / 2) = Fin r2" "r1 + 1 / 2 - 1 / 1000000 \<le> r2" "r2 \<le> r1 + 1 / 2 + 1 / 1000000"
    by blast
  have r2b: "0 \<le> r2" "r2 < 1" using r2(2,3) r1b by linarith+
  then have "\<lfloor>r2\<rfloor> = 0" by (intro floor_unique) simp_all
  then have t: "ToInt32 (Fin r2) = 0"
    using r2b by (simp add: ToInt32_def trunc_toward_zero_def)
  have "lut_channel tm_gamma2 (Fin r) = rd (gammaLut tm_gamma2) (ToInt32 (Fin r2))"
    using rb by (simp add: lut_channel_def tm_gamma2_def LUT_SIZE_def clamp_def Let_def
        r(1) r1(1) r2(1))
  then show ?thesis
    unfolding t using rd_gammaLut [of 0 tm_gamma2] by (simp add: gamma2_entry)
qed

lemma direct_e4:
  assumes r: "binary64 r = Fin r" "1 / 10000 - 1 / 10 ^ 19 \<le> r" "r \<le> 1 / 10000 + 1 / 10 ^ 19"
  shows "quantize tm_gamma2 (mapValue tm_gamma2 (Fin r)) = Fin 3"
proof -
  have rb: "0 < r" "r < 1" using r(2,3) by simp_all
  have "(99999 / 10000000)\<^sup>2 < r" using r(2) by (simp add: power2_eq_square)
  then have s1: "99999 / 10000000 < sqrt r" by (rule real_less_rsqrt)
  have "r < (100001 / 10000000)\<^sup>2" using r(3) by (simp add: power2_eq_square)
  then have s2: "sqrt r < 100001 / 10000000" by (intro real_less_lsqrt) simp_all
  have x1: "1 / 1000 \<le> sqrt r" "sqrt r \<le> 1000" using s1 s2 by simp_all
  from binary64_close [OF x1] obtain s where
    s: "binary64 (sqrt r) = Fin s" "sqrt r - 1 / 1000000 \<le> s" "s \<le> sqrt r + 1 / 1000000"
    by blast
  have sb: "9998 / 1000000 \<le> s" "s \<le> 10002 / 1000000"
    using s(2,3) s1 s2 by linarith+
  have m: "mapValue tm_gamma2 (Fin r) = Fin s"
    using rb by (simp add: mapValue_def tm_gamma2_def clamp_def r(1) Math_pow_def
        powr_half_sqrt s(1))
  have x2: "1 / 1000 \<le> s * 255" "s * 255 \<le> 1000" using sb by simp_all
  from binary64_close [OF x2] obtain q where
    q: "binary64 (s * 255) = Fin q" "s * 255 - 1 / 1000000 \<le> q" "q \<le> s * 255 + 1 / 1000000"
    by blast
  have "\<bar>q - 3\<bar> < 1 / 2" using q(2,3) sb by linarith
  then have "\<bar>q - of_int 3\<bar> < 1 / 2" by simp
  then have "round q = 3" by (rule round_unique')
  then show ?thesis
    unfolding m using sb by (simp add: quantize_def tm_gamma2_def q(1) Math_round_def)
qed

lemma gamma2_map_e4:
  "ToneMapper_map tm_gamma2
       \<lparr>width = 1, height = 1, depth = D64,
          data = [lit (1 / 10000), lit (1 / 10000), lit (1 / 10000), 1]\<rparr>
     = Inr (Uint8Array [0, 0, 0, 255])"
proof -
  from lit_e4 obtain r where r: "lit (1 / 10000) = Fin r" "binary64 r = Fin r"
    "1 / 10000 - 1 / 10 ^ 19 \<le> r" "r \<le> 1 / 10000 + 1 / 10 ^ 19"
    by blast
  have d: "tmOutputDepth tm_gamma2 = 8" by (simp add: tm_gamma2_def)
  have "map_pixel8 tm_gamma2 [Fin r, Fin r, Fin r, 1] 0 = [0, 0, 0, 255]"
    using lut_e4 [OF r(2,3,4)] alpha_gamma2 by (simp add: map_pixel8_def rd_def)
  then show ?thesis unfolding r(1) by (simp add: ToneMapper_map_def d)
qed

lemma direct_gamma2_e4:
  "quantize tm_gamma2 (mapValue tm_gamma2 (lit (1 / 10000))) = Fin 3"
proof -
  from lit_e4 obtain r where r: "lit (1 / 10000) = Fin r" "binary64 r = Fin r"
    "1 / 10000 - 1 / 10 ^ 19 \<le> r" "r \<le> 1 / 10000 + 1 / 10 ^ 19"
    by blast
  show ?thesis unfolding r(1) by (rule direct_e4 [OF r(2,3,4)])
qed

text \<open>
  Claim C5 fails on the code. The tone mapper with algorithm clamp, exposure 0, gamma 2
  and 8-bit output maps the pixel whose colour channels are \<open>2 ^ -14\<close> (about 0.000061) to
  the bytes (0, 0, 0, 255): the table index is \<open>(2 ^ -14 * 4096 + 0.5) | 0 = 0\<close>, and
  entry 0 of the table is 0. The direct computation \<open>quantize(mapValue(2 ^ -14))\<close> is
  \<open>Math.round(2 ^ -7 * 255) = 2\<close>: the two differ by 2. On the pixel whose colour
  channels are the literal \<open>0.0001\<close> the map gives the same bytes, and the direct
  computation gives 3.
\<close>

theorem lut_not_within_one:
  "new_ToneMapper \<lparr>algorithm = Named ''clamp'', exposure = Some 0, gamma = Some (Fin 2),
      outputDepth = Some 8\<rparr> = Inr tm_gamma2
   \<and> ToneMapper_map tm_gamma2
        \<lparr>width = 1, height = 1, depth = D64,
           data = [Fin (1 / 16384), Fin (1 / 16384), Fin (1 / 16384), 1]\<rparr>
       = Inr (Uint8Array [0, 0, 0, 255])
   \<and> mapValue tm_gamma2 (Fin (1 / 16384)) = Fin (1 / 128)
   \<and> quantize tm_gamma2 (mapValue tm_gamma2 (Fin (1 / 16384))) = Fin 2
   \<and> ToneMapper_map tm_gamma2
        \<lparr>width = 1, height = 1, depth = D64,
           data = [lit (1 / 10000), lit (1 / 10000), lit (1 / 10000), 1]\<rparr>
       = Inr (Uint8Array [0, 0, 0, 255])
   \<and> quantize tm_gamma2 (mapValue tm_gamma2 (lit (1 / 10000))) = Fin 3"
  using new_gamma2 gamma2_map mapValue_gamma2 direct_gamma2 gamma2_map_e4 direct_gamma2_e4
  by (simp add: direct_channel_def)

section \<open>The pHYs chunk and its checksum\<close>

lemma crc_step_alt: "crc_step c = drop_bit 1 c XOR (if bit c 0 then 0xedb88320 else 0)"
proof -
  have "c AND 1 \<noteq> 0 \<longleftrightarrow> bit c 0"
    by (simp add: and_one_eq bit_0 odd_iff_mod_2_eq_one)
  then show ?thesis
    by (simp add: crc_step_def xor.commute)
qed

lemma crc_step_xor: "crc_step (x XOR y) = crc_step x XOR crc_step y"
  by (simp add: crc_step_alt bit_xor_iff xor.assoc xor.left_commute)

lemma crc_steps_xor: "(crc_step ^^ k) (x XOR y) = (crc_step ^^ k) x XOR (crc_step ^^ k) y"
  by (induction k) (simp_all add: crc_step_xor)

lemma crc_steps_shift: "take_bit k x = 0 \<Longrightarrow> (crc_step ^^ k) x = drop_bit k x"
proof (induction k arbitrary: x)
  case 0
  then show ?case by simp
next
  case (Suc k)
  have nb: "\<not> bit x n" if "n < Suc k" for n
  proof -
    have "bit (take_bit (Suc k) x) n \<longleftrightarrow> bit (0 :: 32 word) n"
      using Suc.prems by simp
    then show ?thesis using that by (simp add: bit_take_bit_iff)
  qed
  have e: "\<not> bit x 0" using nb [of 0] by simp
  have t: "take_bit k (drop_bit 1 x) = 0"
    by (rule bit_eqI) (simp add: bit_take_bit_iff bit_drop_bit_eq nb)
  have "(crc_step ^^ Suc k) x = (crc_step ^^ k) (crc_step x)"
    by (simp add: funpow_swap1)
  also have "crc_step x = drop_bit 1 x"
    using e by (simp add: crc_step_alt)
  also have "(crc_step ^^ k) (drop_bit 1 x) = drop_bit k (drop_bit 1 x)"
    by (rule Suc.IH [OF t])
  finally show ?case by simp
qed


lemma rd_nat: "n < length xs \<Longrightarrow> rd xs (int n) = xs ! n"
  by (simp add: rd_def)

lemma CRC_TABLE_length: "length CRC_TABLE = 256"
  unfolding CRC_TABLE_def by (simp only: length_map length_upt)

lemma CRC_TABLE_nth: "n < 256 \<Longrightarrow> CRC_TABLE ! n = (crc_step ^^ 8) (word_of_nat n)"
  unfolding CRC_TABLE_def by (simp only: nth_map_upt minus_nat.diff_0 add_0)

lemma low_byte_mask: "(0xff :: 32 word) = mask 8"
  by (simp add: mask_eq_exp_minus_1)

lemma CRC_TABLE_lookup: "rd CRC_TABLE (uint (take_bit 8 y)) = (crc_step ^^ 8) (take_bit 8 y)"
proof -
  have "take_bit 8 (unat y) < 2 ^ 8"
    by (rule take_bit_nat_less_exp)
  then have b: "unat (take_bit 8 y) < 256"
    by (simp add: unsigned_take_bit_eq)
  have "rd CRC_TABLE (int (unat (take_bit 8 y))) = CRC_TABLE ! unat (take_bit 8 y)"
    by (rule rd_nat) (simp only: CRC_TABLE_length b)
  then have "rd CRC_TABLE (uint (take_bit 8 y)) = CRC_TABLE ! unat (take_bit 8 y)"
    by (simp only: uint_nat)
  also have "\<dots> = (crc_step ^^ 8) (word_of_nat (unat (take_bit 8 y)))"
    by (rule CRC_TABLE_nth [OF b])
  finally show ?thesis by simp
qed

lemma crc32_update_bitwise: "crc32_update crc b = (crc_step ^^ 8) (crc XOR ucast b)"
proof -
  define y where "y = crc XOR ucast b"
  have split: "y = take_bit 8 y XOR push_bit 8 (drop_bit 8 y)"
    by (rule bit_eqI) (auto simp: bit_simps)
  have lo: "take_bit 8 (push_bit 8 (drop_bit 8 y)) = 0"
    by (rule bit_eqI) (simp add: bit_simps)
  have "drop_bit 8 (ucast b :: 32 word) = 0"
    by (rule bit_eqI) (auto simp: bit_simps dest: bit_imp_le_length)
  then have hi: "drop_bit 8 y = drop_bit 8 crc"
    by (simp add: y_def)
  have "(crc_step ^^ 8) y = (crc_step ^^ 8) (take_bit 8 y XOR push_bit 8 (drop_bit 8 y))"
    using split by simp
  also have "\<dots> = (crc_step ^^ 8) (take_bit 8 y) XOR (crc_step ^^ 8) (push_bit 8 (drop_bit 8 y))"
    by (rule crc_steps_xor)
  also have "(crc_step ^^ 8) (push_bit 8 (drop_bit 8 y)) = drop_bit 8 (push_bit 8 (drop_bit 8 y))"
    by (rule crc_steps_shift [OF lo])
  also have "drop_bit 8 (push_bit 8 (drop_bit 8 y)) = drop_bit 8 y"
    by (rule bit_eqI) (auto simp: bit_simps dest: bit_imp_le_length)
  finally have "(crc_step ^^ 8) y = rd CRC_TABLE (uint (take_bit 8 y)) XOR drop_bit 8 crc"
    by (simp only: CRC_TABLE_lookup hi)
  then show ?thesis
    by (simp only: crc32_update_def low_byte_mask take_bit_eq_mask y_def)
qed

lemma crc32_is_bitwise: "crc32 bytes = crc32_bitwise bytes"
proof -
  have "crc32_update = (\<lambda>crc b. (crc_step ^^ 8) (crc XOR ucast b))"
    by (intro ext) (rule crc32_update_bitwise)
  then show ?thesis
    by (simp add: crc32_def crc32_bitwise_def del: funpow.simps)
qed


lemma zero_chunk: "replicate 21 (0 :: byte) = [0,0,0,0,0,0,0,0,0,0,0,0,0,0,0,0,0,0,0,0,0]"
  by (simp add: numeral_eq_Suc)

lemma be32_nine: "be32 9 = [0, 0, 0, 9]"
  by (simp add: be32_def drop_bit_eq_div)

lemma trunc_of_int: "trunc_toward_zero (real_of_int n) = n"
  by (simp add: trunc_toward_zero_def)

lemma ToUint32_nine: "ToUint32 (Fin 9) = 9"
  using trunc_of_int [of 9] by (simp add: ToUint32_def)

lemma ToUint32_uint32: "ToUint32 (uint32_number w) = w"
  unfolding ToUint32_def uint32_number_def number.case trunc_of_int by simp

lemma ToUint32_integer: "ToUint32 (Fin (real_of_int n)) = word_of_int n"
  by (simp add: ToUint32_def trunc_of_int)

lemma setUint32_be32:
  "setUint32 buf off v = (let bs = be32 (ToUint32 v)
     in buf[off := bs ! 0, off + 1 := bs ! 1, off + 2 := bs ! 2, off + 3 := bs ! 3])"
  by (simp add: setUint32_def be32_def Let_def)

lemma be32_length: "length (be32 w) = 4"
  by (simp add: be32_def)

lemma be32_explode: "\<exists>a b c d. be32 w = [a, b, c, d]"
  by (simp add: be32_def)

lemma buildPHYsChunk_bytes:
  "buildPHYsChunk res =
     be32 9 @ [0x70, 0x48, 0x59, 0x73]
     @ be32 (ToUint32 (dpiToPixelsPerMeter res)) @ be32 (ToUint32 (dpiToPixelsPerMeter res))
     @ [1]
     @ be32 (crc32 ([0x70, 0x48, 0x59, 0x73]
          @ be32 (ToUint32 (dpiToPixelsPerMeter res))
          @ be32 (ToUint32 (dpiToPixelsPerMeter res)) @ [1]))"
proof -
  obtain a b c d where p: "be32 (ToUint32 (dpiToPixelsPerMeter res)) = [a, b, c, d]"
    using be32_explode by blast
  obtain e f g h where q: "be32 (crc32 [0x70, 0x48, 0x59, 0x73, a, b, c, d, a, b, c, d, 1]) = [e, f, g, h]"
    using be32_explode by blast
  show ?thesis
    unfolding buildPHYsChunk_def Let_def setUint32_be32 zero_chunk ToUint32_nine ToUint32_uint32
      be32_nine p
    by (simp add: numeral_eq_Suc q be32_nine)
qed

lemma bytes_of_nat:
  fixes n :: nat
  assumes "n < 4294967296"
  shows "((n div 16777216 mod 256 * 256 + n div 65536 mod 256) * 256 + n div 256 mod 256) * 256
           + n mod 256 = n"
proof -
  have a: "n div 256 * 256 + n mod 256 = n"
    by (rule div_mult_mod_eq)
  have b: "n div 65536 * 256 + n div 256 mod 256 = n div 256"
    using div_mult_mod_eq [of "n div 256" 256] by (simp add: div_mult2_eq [symmetric])
  have c: "n div 16777216 * 256 + n div 65536 mod 256 = n div 65536"
    using div_mult_mod_eq [of "n div 65536" 256] by (simp add: div_mult2_eq [symmetric])
  have d: "n div 16777216 mod 256 = n div 16777216"
    using assms by simp
  show ?thesis
    unfolding d c b a ..
qed

lemma unat_byte_of: "unat (ucast (drop_bit k (w :: 32 word)) :: byte) = unat w div 2 ^ k mod 256"
  by (simp add: unsigned_ucast_eq unat_drop_bit_eq take_bit_eq_mod) (simp add: drop_bit_eq_div)

lemma be_value_be32: "be_value (be32 w) = unat w"
proof -
  have "unat w < 4294967296"
    using unsigned_less [of w, where 'a = nat] by simp
  from bytes_of_nat [OF this] show ?thesis
    using unat_byte_of [of 24 w] unat_byte_of [of 16 w] unat_byte_of [of 8 w] unat_byte_of [of 0 w]
    by (simp add: be_value_def be32_def)
qed


lemma buildPHYsChunk_length: "length (buildPHYsChunk res) = 21"
  by (simp add: buildPHYsChunk_bytes be32_length)

lemma phys_fields:
  "take 4 (buildPHYsChunk res) = be32 9"
  "take 4 (drop 4 (buildPHYsChunk res)) = [0x70, 0x48, 0x59, 0x73]"
  "take 4 (drop 8 (buildPHYsChunk res)) = be32 (ToUint32 (dpiToPixelsPerMeter res))"
  "take 4 (drop 12 (buildPHYsChunk res)) = be32 (ToUint32 (dpiToPixelsPerMeter res))"
  "take 1 (drop 16 (buildPHYsChunk res)) = [1]"
  "drop 17 (buildPHYsChunk res) = be32 (crc32 (take 13 (drop 4 (buildPHYsChunk res))))"
proof -
  obtain a b c d where p: "be32 (ToUint32 (dpiToPixelsPerMeter res)) = [a, b, c, d]"
    using be32_explode by blast
  obtain e f g h where q: "be32 (crc32 [0x70, 0x48, 0x59, 0x73, a, b, c, d, a, b, c, d, 1]) = [e, f, g, h]"
    using be32_explode by blast
  have c: "buildPHYsChunk res = [0, 0, 0, 9, 0x70, 0x48, 0x59, 0x73, a, b, c, d, a, b, c, d, 1, e, f, g, h]"
    by (simp add: buildPHYsChunk_bytes p q be32_nine)
  show "take 4 (buildPHYsChunk res) = be32 9"
    by (simp add: c be32_nine)
  show "take 4 (drop 4 (buildPHYsChunk res)) = [0x70, 0x48, 0x59, 0x73]"
    by (simp add: c)
  show "take 4 (drop 8 (buildPHYsChunk res)) = be32 (ToUint32 (dpiToPixelsPerMeter res))"
    by (simp add: c p)
  show "take 4 (drop 12 (buildPHYsChunk res)) = be32 (ToUint32 (dpiToPixelsPerMeter res))"
    by (simp add: c p)
  show "take 1 (drop 16 (buildPHYsChunk res)) = [1]"
    by (simp add: c)
  show "drop 17 (buildPHYsChunk res) = be32 (crc32 (take 13 (drop 4 (buildPHYsChunk res))))"
    by (simp add: c q)
qed

text \<open>
  The density of a finite dpi between 1 and 1e9: the binary64 value of 0.0254 and the
  rounding of the quotient move the quotient by less than \<open>dpi * 1e-13\<close> before
  \<open>Math.round\<close>.
\<close>

lemma lit_inch: "\<exists>c. lit (254 / 10000) = Fin c \<and> \<bar>c - 254 / 10000\<bar> \<le> 1 / 10 ^ 17"
proof -
  from binary64_near [of "254 / 10000"] obtain c where
    c: "binary64 (254 / 10000) = Fin c" "\<bar>c - 254 / 10000\<bar> \<le> 254 / 10000 / 2 ^ 53"
    by auto
  have "(254::real) / 10000 / 2 ^ 53 \<le> 1 / 10 ^ 17" by simp
  with c show ?thesis unfolding lit_def by (intro exI [of _ c]) simp
qed

lemma ppm_near:
  assumes "1 \<le> d" "d \<le> 10 ^ 9"
  shows "\<exists>q. dpiToPixelsPerMeter (Fin d) = Fin (of_int (round q))
             \<and> \<bar>q - d / (254 / 10000)\<bar> \<le> d / 10 ^ 13"
proof -
  from lit_inch obtain c where c: "lit (254 / 10000) = Fin c" "\<bar>c - 254 / 10000\<bar> \<le> 1 / 10 ^ 17"
    by blast
  define lo :: real where "lo = 254 / 10000 - 1 / 10 ^ 17"
  define hi :: real where "hi = 254 / 10000 + 1 / 10 ^ 17"
  have cb: "lo \<le> c" "c \<le> hi"
    using c(2) unfolding lo_def hi_def by linarith+
  have lp: "0 < lo" "0 < hi" by (simp_all add: lo_def hi_def)
  then have cp: "0 < c" using cb by linarith
  define i where "i = 1 / c"
  have "1 / hi \<le> 1 / c" using cb cp lp by (intro divide_left_mono) simp_all
  moreover have "1 / c \<le> 1 / lo" using cb cp lp by (intro divide_left_mono) simp_all
  moreover have "10000 / 254 - 2 / 10 ^ 14 \<le> 1 / hi" "1 / lo \<le> 10000 / 254 + 2 / 10 ^ 14"
    by (simp_all add: lo_def hi_def)
  ultimately have ib: "10000 / 254 - 2 / 10 ^ 14 \<le> i" "i \<le> 10000 / 254 + 2 / 10 ^ 14"
    unfolding i_def by linarith+
  have d0: "0 \<le> d" using assms(1) by linarith
  define x where "x = d / c"
  have xi: "x = d * i" by (simp add: x_def i_def)
  have "d * (10000 / 254 - 2 / 10 ^ 14) \<le> d * i" "d * i \<le> d * (10000 / 254 + 2 / 10 ^ 14)"
    using ib d0 by (intro mult_left_mono; simp)+
  then have xb: "d * (10000 / 254) - d * (2 / 10 ^ 14) \<le> x" "x \<le> d * (10000 / 254) + d * (2 / 10 ^ 14)"
    by (simp_all add: xi right_diff_distrib distrib_left)
  have x1: "1 / 10 ^ 300 \<le> x" "x \<le> 10 ^ 300" "x \<le> 40 * d"
    using xb assms by simp_all
  from binary64_near [OF x1(1,2)] obtain q where
    q: "binary64 x = Fin q" "\<bar>q - x\<bar> \<le> x / 2 ^ 53"
    by blast
  have "x / 2 ^ 53 \<le> 40 * d / 2 ^ 53"
    using x1(3) by (intro divide_right_mono) simp_all
  also have "\<dots> \<le> d * (1 / 10 ^ 14)"
    using d0 by simp
  finally have qe: "\<bar>q - x\<bar> \<le> d * (1 / 10 ^ 14)"
    using q(2) by linarith
  have "\<bar>q - d * (10000 / 254)\<bar> \<le> d * (3 / 10 ^ 14)"
    using qe xb by argo
  moreover have "d * (3 / 10 ^ 14) \<le> d / 10 ^ 13" using d0 by simp
  moreover have "d / (254 / 10000) = d * (10000 / 254)" by simp
  ultimately have "\<bar>q - d / (254 / 10000)\<bar> \<le> d / 10 ^ 13"
    by argo
  moreover have "dpiToPixelsPerMeter (Fin d) = Fin (of_int (round q))"
    unfolding dpiToPixelsPerMeter_def c(1) using cp q(1) by (simp add: x_def Math_round_def)
  ultimately show ?thesis by blast
qed

lemma ppm_300: "dpiToPixelsPerMeter (Fin 300) = Fin 11811"
proof -
  have "\<exists>q::real. dpiToPixelsPerMeter (Fin 300) = Fin (of_int (round q))
          \<and> \<bar>q - 300 / (254 / 10000)\<bar> \<le> 300 / 10 ^ 13"
    by (rule ppm_near) simp_all
  then obtain q :: real where
    q: "dpiToPixelsPerMeter (Fin 300) = Fin (of_int (round q))"
      "\<bar>q - 300 / (254 / 10000)\<bar> \<le> 300 / 10 ^ 13"
    by blast
  have "\<bar>q - 300 / (254 / 10000)\<bar> \<le> 1 / 1000" using q(2) by simp
  then have "\<bar>q - 11811\<bar> < 1 / 2" by argo
  then have "\<bar>q - of_int 11811\<bar> < 1 / 2" by simp
  then have "round q = 11811" by (rule round_unique')
  then show ?thesis by (simp add: q(1))
qed

lemma ppm_72: "dpiToPixelsPerMeter (Fin 72) = Fin 2835"
proof -
  have "\<exists>q::real. dpiToPixelsPerMeter (Fin 72) = Fin (of_int (round q))
          \<and> \<bar>q - 72 / (254 / 10000)\<bar> \<le> 72 / 10 ^ 13"
    by (rule ppm_near) simp_all
  then obtain q :: real where
    q: "dpiToPixelsPerMeter (Fin 72) = Fin (of_int (round q))"
      "\<bar>q - 72 / (254 / 10000)\<bar> \<le> 72 / 10 ^ 13"
    by blast
  have "\<bar>q - 72 / (254 / 10000)\<bar> \<le> 1 / 1000" using q(2) by simp
  then have "\<bar>q - 2835\<bar> < 1 / 2" by argo
  then have "\<bar>q - of_int 2835\<bar> < 1 / 2" by simp
  then have "round q = 2835" by (rule round_unique')
  then show ?thesis by (simp add: q(1))
qed

lemma ppm_2e8: "dpiToPixelsPerMeter (Fin 200000000) = Fin 7874015748"
proof -
  have "\<exists>q::real. dpiToPixelsPerMeter (Fin 200000000) = Fin (of_int (round q))
          \<and> \<bar>q - 200000000 / (254 / 10000)\<bar> \<le> 200000000 / 10 ^ 13"
    by (rule ppm_near) simp_all
  then obtain q :: real where
    q: "dpiToPixelsPerMeter (Fin 200000000) = Fin (of_int (round q))"
      "\<bar>q - 200000000 / (254 / 10000)\<bar> \<le> 200000000 / 10 ^ 13"
    by blast
  have "\<bar>q - 200000000 / (254 / 10000)\<bar> \<le> 1 / 1000" using q(2) by simp
  then have "\<bar>q - 7874015748\<bar> < 1 / 2" by argo
  then have "\<bar>q - of_int 7874015748\<bar> < 1 / 2" by simp
  then have "round q = 7874015748" by (rule round_unique')
  then show ?thesis by (simp add: q(1))
qed

text \<open>
  Claim C4, as the code has it. For every dpi, \<open>buildPHYsChunk\<close> returns 21 bytes: the
  big-endian length 9, the tag "pHYs", the X density, an equal Y density, the unit 1, and
  the big-endian CRC-32 (reflected polynomial 0xEDB88320, initial and final value
  0xFFFFFFFF) of the 13 bytes of tag and data. The density is
  \<open>Math.round(dpi / 0.0254)\<close>, the quotient being the binary64 quotient by the binary64
  value of 0.0254; the density field holds it as \<open>ToUint32\<close> converts it, that is modulo
  \<open>2 ^ 32\<close>, hence the density itself whenever it lies in \<open>[0, 2 ^ 32)\<close>. For a dpi
  between 1 and 1e9 the density is the integer nearest to a number within \<open>dpi * 1e-13\<close>
  of the exact quotient. The density of 300 dpi is 11811, that of 72 dpi is 2835.
\<close>

theorem buildPHYsChunk_layout:
  "(let c = buildPHYsChunk res; ppm = dpiToPixelsPerMeter res
    in length c = 21
       \<and> be_value (take 4 c) = 9
       \<and> take 4 (drop 4 c) = [0x70, 0x48, 0x59, 0x73]
       \<and> be_value (take 4 (drop 8 c)) = unat (ToUint32 ppm)
       \<and> (\<forall>n. ppm = Fin (of_int n) \<longrightarrow> int (be_value (take 4 (drop 8 c))) = n mod 2 ^ 32)
       \<and> (\<forall>n. ppm = Fin (of_int n) \<and> 0 \<le> n \<and> n < 2 ^ 32
             \<longrightarrow> int (be_value (take 4 (drop 8 c))) = n)
       \<and> take 4 (drop 12 c) = take 4 (drop 8 c)
       \<and> take 1 (drop 16 c) = [1]
       \<and> length (drop 17 c) = 4
       \<and> be_value (drop 17 c) = unat (crc32_bitwise (take 13 (drop 4 c))))
   \<and> dpiToPixelsPerMeter res = Math_round (n_div res (lit (254 / 10000)))
   \<and> (\<forall>d. res = Fin d \<and> 1 \<le> d \<and> d \<le> 10 ^ 9
         \<longrightarrow> (\<exists>q. dpiToPixelsPerMeter res = Fin (of_int (round q))
                  \<and> \<bar>q - d / (254 / 10000)\<bar> \<le> d / 10 ^ 13))
   \<and> dpiToPixelsPerMeter (Fin 300) = Fin 11811 \<and> dpiToPixelsPerMeter (Fin 72) = Fin 2835"
proof -
  let ?c = "buildPHYsChunk res" and ?ppm = "dpiToPixelsPerMeter res"
  have x: "be_value (take 4 (drop 8 ?c)) = unat (ToUint32 ?ppm)"
    by (simp add: phys_fields be_value_be32)
  have m: "int (be_value (take 4 (drop 8 ?c))) = n mod 2 ^ 32" if "?ppm = Fin (of_int n)" for n
    unfolding x that ToUint32_integer by (simp add: uint_word_of_int take_bit_eq_mod)
  have xm: "\<forall>n. ?ppm = Fin (of_int n) \<longrightarrow> int (be_value (take 4 (drop 8 ?c))) = n mod 2 ^ 32"
    using m by blast
  have x': "\<forall>n. ?ppm = Fin (of_int n) \<and> 0 \<le> n \<and> n < 2 ^ 32
             \<longrightarrow> int (be_value (take 4 (drop 8 ?c))) = n"
  proof (intro allI impI)
    fix n :: int
    assume h: "?ppm = Fin (of_int n) \<and> 0 \<le> n \<and> n < 2 ^ 32"
    then have "int (be_value (take 4 (drop 8 ?c))) = n mod 2 ^ 32"
      using m by blast
    then show "int (be_value (take 4 (drop 8 ?c))) = n"
      using h by simp
  qed
  have l: "be_value (take 4 ?c) = 9"
    by (simp add: phys_fields be_value_be32)
  have t: "take 4 (drop 4 ?c) = [0x70, 0x48, 0x59, 0x73]"
    by (rule phys_fields)
  have y: "take 4 (drop 12 ?c) = take 4 (drop 8 ?c)"
    by (simp only: phys_fields)
  have u: "take 1 (drop 16 ?c) = [1]"
    by (rule phys_fields)
  have crc: "be_value (drop 17 ?c) = unat (crc32_bitwise (take 13 (drop 4 ?c)))"
    by (simp add: phys_fields(6) be_value_be32 crc32_is_bitwise)
  have len: "length (drop 17 ?c) = 4"
    by (simp add: buildPHYsChunk_length)
  have near: "\<forall>d. res = Fin d \<and> 1 \<le> d \<and> d \<le> 10 ^ 9
         \<longrightarrow> (\<exists>q. dpiToPixelsPerMeter res = Fin (of_int (round q))
                  \<and> \<bar>q - d / (254 / 10000)\<bar> \<le> d / 10 ^ 13)"
  proof (intro allI impI)
    fix d :: real
    assume h: "res = Fin d \<and> 1 \<le> d \<and> d \<le> 10 ^ 9"
    then have "\<exists>q. dpiToPixelsPerMeter (Fin d) = Fin (of_int (round q))
                  \<and> \<bar>q - d / (254 / 10000)\<bar> \<le> d / 10 ^ 13"
      by (intro ppm_near) simp_all
    then show "\<exists>q. dpiToPixelsPerMeter res = Fin (of_int (round q))
                  \<and> \<bar>q - d / (254 / 10000)\<bar> \<le> d / 10 ^ 13"
      using h by simp
  qed
  have d: "dpiToPixelsPerMeter res = Math_round (n_div res (lit (254 / 10000)))"
    by (simp only: dpiToPixelsPerMeter_def)
  show ?thesis
    unfolding Let_def
    by (intro conjI) (fact buildPHYsChunk_length l t x xm x' y u len crc d near ppm_300 ppm_72)+
qed

theorem buildPHYsChunk_layout_witness:
  "int (be_value (take 4 (drop 8 (buildPHYsChunk (Fin 300))))) = 11811
   \<and> length (buildPHYsChunk (Fin 300)) = 21
   \<and> (\<exists>q::real. dpiToPixelsPerMeter (Fin 300) = Fin (of_int (round q))
          \<and> \<bar>q - 300 / (254 / 10000)\<bar> \<le> 300 / 10 ^ 13)"
proof -
  have r: "dpiToPixelsPerMeter (Fin 300) = Fin (of_int 11811) \<and> (0::int) \<le> 11811
      \<and> (11811::int) < 2 ^ 32"
    by (simp add: ppm_300)
  have s: "Fin 300 = Fin 300 \<and> (1::real) \<le> 300 \<and> (300::real) \<le> 10 ^ 9"
    by simp
  from buildPHYsChunk_layout [of "Fin 300"] r s show ?thesis
    unfolding Let_def by blast
qed

text \<open>
  Claim C4 as stated, for every dpi, fails where the density does not fit four bytes: at
  200000000 dpi the density is 7874015748 and the field holds 3579048452.
\<close>

theorem density_field_wraps:
  "dpiToPixelsPerMeter (Fin 200000000) = Fin 7874015748
   \<and> be_value (take 4 (drop 8 (buildPHYsChunk (Fin 200000000)))) = 3579048452
   \<and> Fin (real (be_value (take 4 (drop 8 (buildPHYsChunk (Fin 200000000))))))
        \<noteq> dpiToPixelsPerMeter (Fin 200000000)"
proof -
  have "ToUint32 (Fin 7874015748) = 3579048452"
    using ToUint32_integer [of 7874015748] by simp
  then show ?thesis
    by (simp add: ppm_2e8 phys_fields be_value_be32)
qed


lemma take4_nth:
  assumes "4 \<le> length xs"
  shows "take 4 xs = [xs ! 0, xs ! 1, xs ! 2, xs ! 3]"
proof -
  from assms obtain a r1 where 1: "xs = a # r1" by (cases xs) auto
  with assms obtain b r2 where 2: "r1 = b # r2" by (cases r1) auto
  with assms 1 obtain c r3 where 3: "r2 = c # r3" by (cases r2) auto
  with assms 1 2 obtain d r4 where 4: "r3 = d # r4" by (cases r3) auto
  show ?thesis by (simp add: 1 2 3 4 numeral_eq_Suc)
qed

lemma magic_check:
  "(byte_at png 0 \<noteq> Some 0x89 \<or> byte_at png 1 \<noteq> Some 0x50
      \<or> byte_at png 2 \<noteq> Some 0x4e \<or> byte_at png 3 \<noteq> Some 0x47)
   \<longleftrightarrow> take 4 png \<noteq> [0x89, 0x50, 0x4e, 0x47]"
proof (cases "4 \<le> length png")
  case True
  then have "0 < length png" "1 < length png" "2 < length png" "3 < length png"
    by linarith+
  then have "byte_at png 0 = Some (png ! 0)" "byte_at png 1 = Some (png ! 1)"
    "byte_at png 2 = Some (png ! 2)" "byte_at png 3 = Some (png ! 3)"
    unfolding byte_at_def by simp_all
  then show ?thesis
    by (simp add: take4_nth [OF True])
next
  case False
  then have "byte_at png 3 = None" "length (take 4 png) \<noteq> 4"
    by (simp_all add: byte_at_def)
  then show ?thesis by auto
qed

lemma injectPHYs_checked:
  "injectPHYs png res =
     (if take 4 png \<noteq> [0x89, 0x50, 0x4e, 0x47] then Inl NotAValidPNG
      else case typed_set (replicate (length png + 21) 0) (subarray png 0 33) 0 of
             Inl e \<Rightarrow> Inl e
           | Inr result \<Rightarrow>
               (case typed_set result (buildPHYsChunk res) 33 of
                  Inl e \<Rightarrow> Inl e
                | Inr result \<Rightarrow> typed_set result (subarray png 33 (length png)) 54))"
proof -
  have e: "(8 :: nat) + 25 = 33" "(33 :: nat) + 21 = 54"
    by simp_all
  show ?thesis
    unfolding injectPHYs_def Let_def magic_check buildPHYsChunk_length e ..
qed

lemma injectPHYs_long:
  assumes m: "take 4 png = [0x89, 0x50, 0x4e, 0x47]" and l: "33 \<le> length png"
  shows "injectPHYs png res = Inr (take 33 png @ buildPHYsChunk res @ drop 33 png)"
proof -
  let ?phys = "buildPHYsChunk res"
  let ?r0 = "replicate (length png + 21) (0 :: byte)"
  let ?r1 = "take 33 png @ replicate (length png - 12) 0"
  let ?r2 = "take 33 png @ ?phys @ replicate (length png - 33) 0"
  have s1: "typed_set ?r0 (subarray png 0 33) 0 = Inr ?r1"
    using l by (simp add: typed_set_def subarray_def)
  have s2: "typed_set ?r1 ?phys 33 = Inr ?r2"
    using l by (simp add: typed_set_def buildPHYsChunk_length)
  have s3: "typed_set ?r2 (subarray png 33 (length png)) 54
          = Inr (take 33 png @ ?phys @ drop 33 png)"
    using l by (simp add: typed_set_def buildPHYsChunk_length subarray_def)
  show ?thesis
    by (simp only: injectPHYs_checked m s1 s2 s3 sum.case if_False simp_thms)
qed

lemma injectPHYs_short:
  assumes m: "take 4 png = [0x89, 0x50, 0x4e, 0x47]" and l: "length png < 33"
  shows "injectPHYs png res = Inl SetOutOfRange"
proof -
  let ?phys = "buildPHYsChunk res"
  let ?r0 = "replicate (length png + 21) (0 :: byte)"
  let ?r1 = "png @ replicate 21 0"
  have s1: "typed_set ?r0 (subarray png 0 33) 0 = Inr ?r1"
    using l by (simp add: typed_set_def subarray_def)
  have s2: "typed_set ?r1 ?phys 33 = Inl SetOutOfRange"
    using l by (simp add: typed_set_def buildPHYsChunk_length)
  show ?thesis
    by (simp only: injectPHYs_checked m s1 s2 sum.case if_False simp_thms)
qed

lemma injectPHYs_rejects:
  assumes "take 4 png \<noteq> [0x89, 0x50, 0x4e, 0x47]"
  shows "injectPHYs png res = Inl NotAValidPNG"
  using assms by (simp add: injectPHYs_checked)

text \<open>
  Claim C3, as the code has it. \<open>injectPHYs\<close> raises "not a valid PNG" exactly when the
  input does not begin with the four bytes 0x89 "PNG"; when it does and the input has at
  least 33 bytes, the result is the first 8 bytes, the following 25 bytes, the new chunk,
  and every byte that followed, unaltered.
\<close>

theorem injectPHYs_splice:
  "(injectPHYs png res = Inl NotAValidPNG \<longleftrightarrow> take 4 png \<noteq> [0x89, 0x50, 0x4e, 0x47])
   \<and> (take 4 png = [0x89, 0x50, 0x4e, 0x47] \<and> 33 \<le> length png \<longrightarrow>
        injectPHYs png res
          = Inr (take 8 png @ take 25 (drop 8 png) @ buildPHYsChunk res @ drop 33 png))"
proof -
  have split: "take 8 png @ take 25 (drop 8 png) = take 33 png"
    by (simp add: take_add [of 8 25 png, symmetric])
  have a: "injectPHYs png res \<noteq> Inl NotAValidPNG" if "take 4 png = [0x89, 0x50, 0x4e, 0x47]"
  proof (cases "33 \<le> length png")
    case True
    then show ?thesis using injectPHYs_long [OF that] by simp
  next
    case False
    then show ?thesis using injectPHYs_short [OF that] by simp
  qed
  have b: "take 4 png = [0x89, 0x50, 0x4e, 0x47] \<and> 33 \<le> length png \<longrightarrow>
        injectPHYs png res
          = Inr (take 8 png @ take 25 (drop 8 png) @ buildPHYsChunk res @ drop 33 png)"
    using injectPHYs_long [of png res] split [symmetric] by simp
  from a injectPHYs_rejects [of png res] b show ?thesis
    by blast
qed

lemma bad_signature_props:
  "take 4 png_bad_signature = [0x89, 0x50, 0x4e, 0x47]" "length png_bad_signature = 33"
  "take 8 png_bad_signature \<noteq> PNG_SIGNATURE"
  by (simp_all add: png_bad_signature_def PNG_SIGNATURE_def)

theorem injectPHYs_splice_witness:
  "injectPHYs (PNG_SIGNATURE @ replicate 25 7 @ [1, 2, 3]) (Fin 300)
     = Inr (PNG_SIGNATURE @ replicate 25 7 @ buildPHYsChunk (Fin 300) @ [1, 2, 3])
   \<and> injectPHYs [0x50, 0x4e, 0x47] (Fin 300) = Inl NotAValidPNG"
proof -
  let ?png = "PNG_SIGNATURE @ replicate 25 7 @ [1, 2, 3]"
  have h: "take 4 ?png = [0x89, 0x50, 0x4e, 0x47] \<and> 33 \<le> length ?png"
    by (simp add: PNG_SIGNATURE_def)
  have e: "take 8 ?png @ take 25 (drop 8 ?png) @ buildPHYsChunk (Fin 300) @ drop 33 ?png
      = PNG_SIGNATURE @ replicate 25 7 @ buildPHYsChunk (Fin 300) @ [1, 2, 3]"
    by (simp add: PNG_SIGNATURE_def)
  have n: "take 4 [0x50, 0x4e, 0x47 :: byte] \<noteq> [0x89, 0x50, 0x4e, 0x47]"
    by simp
  from injectPHYs_splice [of ?png "Fin 300"] h
  have "injectPHYs ?png (Fin 300)
          = Inr (take 8 ?png @ take 25 (drop 8 ?png) @ buildPHYsChunk (Fin 300) @ drop 33 ?png)"
    by blast
  moreover from injectPHYs_splice [of "[0x50, 0x4e, 0x47]" "Fin 300"] n
  have "injectPHYs [0x50, 0x4e, 0x47] (Fin 300) = Inl NotAValidPNG"
    by blast
  ultimately show ?thesis
    by (simp only: e)
qed

text \<open>
  Claim C3 as stated fails: a file whose bytes 4 to 7 are not those of the PNG signature
  is accepted and spliced; and the 8-byte signature alone, which is valid, yields no
  result but the RangeError of \<open>set\<close>.
\<close>

theorem injectPHYs_four_byte_check:
  "take 8 png_bad_signature \<noteq> PNG_SIGNATURE
   \<and> injectPHYs png_bad_signature (Fin 300) = Inr (png_bad_signature @ buildPHYsChunk (Fin 300))
   \<and> injectPHYs png_bad_signature (Fin 300) \<noteq> Inl NotAValidPNG
   \<and> injectPHYs PNG_SIGNATURE (Fin 300) = Inl SetOutOfRange"
proof -
  have "injectPHYs png_bad_signature (Fin 300)
          = Inr (take 33 png_bad_signature @ buildPHYsChunk (Fin 300) @ drop 33 png_bad_signature)"
    by (rule injectPHYs_long) (simp_all add: bad_signature_props)
  moreover have "injectPHYs PNG_SIGNATURE (Fin 300) = Inl SetOutOfRange"
    by (rule injectPHYs_short) (simp_all add: PNG_SIGNATURE_def)
  ultimately show ?thesis
    by (simp add: bad_signature_props)
qed

section \<open>The pixel buffer\<close>

lemma lit_tenth: "lit (1 / 10) = Fin (3602879701896397 / 36028797018963968)"
proof -
  have "binary64 (1 / 10) = Fin (of_int 7205759403792794 * 2 powi (- 4 - 52))"
    by (rule binary64_eval) (simp_all add: round_half_even_def Let_def power_int_minus)
  then show ?thesis
    by (simp add: lit_def power_int_minus)
qed

lemma fround_tenth: "fround (lit (1 / 10)) = Fin (13421773 / 134217728)"
proof -
  have "binary32 (3602879701896397 / 36028797018963968)
          = Fin (of_int 13421773 * 2 powi (- 4 - 23))"
    by (rule binary32_eval) (simp_all add: round_half_even_def Let_def power_int_minus)
  then show ?thesis
    by (simp add: lit_tenth fround_def power_int_minus)
qed

lemma fround_zero: "fround 0 = 0"
  by (simp add: fround_def binary32_zero)

lemma fround_one: "fround 1 = 1"
  by (simp add: fround_def binary32_one)

lemma offset_in_bounds:
  assumes "0 \<le> x" "x < width buf" "0 \<le> y" "y < height buf"
  shows "offset buf x y = Inr ((y * width buf + x) * 4)"
  using assms by (simp add: offset_def)

lemma index_in_data:
  assumes ok: "buffer_ok buf" and "0 \<le> x" "x < width buf" "0 \<le> y" "y < height buf"
  shows "0 \<le> (y * width buf + x) * 4" "(y * width buf + x) * 4 + 3 < int (length (data buf))"
proof -
  have "0 \<le> y * width buf" using assms by (simp add: buffer_ok_def)
  then show "0 \<le> (y * width buf + x) * 4" using assms by simp
  have "y + 1 \<le> height buf" using assms by simp
  then have "(y + 1) * width buf \<le> height buf * width buf"
    using ok by (intro mult_right_mono) (simp_all add: buffer_ok_def)
  then have "y * width buf + x < height buf * width buf"
    using assms by (simp add: algebra_simps)
  then show "(y * width buf + x) * 4 + 3 < int (length (data buf))"
    using ok by (simp add: buffer_ok_def algebra_simps)
qed

lemma rd_wr_same: "0 \<le> i \<Longrightarrow> i < int (length xs) \<Longrightarrow> rd (wr d xs i v) i = store d v"
  by (simp add: rd_def wr_def)

lemma rd_wr_other: "i \<noteq> j \<Longrightarrow> rd (wr d xs i v) j = rd xs j"
  by (auto simp: rd_def wr_def)

lemma length_wr: "length (wr d xs i v) = length xs"
  by (simp add: wr_def)

lemma data_put4:
  assumes "0 \<le> i" "i + 3 < int (length (data buf))"
  shows "rd (data (put4 buf i (r, g, b, a))) i = store (depth buf) r"
    "rd (data (put4 buf i (r, g, b, a))) (i + 1) = store (depth buf) g"
    "rd (data (put4 buf i (r, g, b, a))) (i + 2) = store (depth buf) b"
    "rd (data (put4 buf i (r, g, b, a))) (i + 3) = store (depth buf) a"
  using assms by (simp_all add: put4_def rd_wr_same rd_wr_other length_wr)

lemma put4_fields:
  "width (put4 buf i c) = width buf" "height (put4 buf i c) = height buf"
  "depth (put4 buf i c) = depth buf"
  by (cases c; simp add: put4_def)+

text \<open>
  Claim C6, as the code has it. On a buffer as the constructor and the operations leave
  it, for every in-bounds (x, y) and every RGBA value, \<open>getPixel\<close> after \<open>setPixel\<close>
  returns each channel as the array stores it: the value itself on a 64-bit buffer, the
  value rounded to binary32 (\<open>Math.fround\<close>, an infinity beyond the binary32 range) on a
  32-bit buffer. \<open>setPixelUnchecked\<close> leaves the same buffer as \<open>setPixel\<close>.
\<close>

theorem set_get_roundtrip:
  assumes "buffer_ok buf" "0 \<le> x" "x < width buf" "0 \<le> y" "y < height buf"
  shows "\<exists>buf'. setPixel buf x y (r, g, b, a) = Inr buf'
           \<and> setPixelUnchecked buf x y (r, g, b, a) = buf'
           \<and> getPixel buf' x y
               = Inr (store (depth buf) r, store (depth buf) g, store (depth buf) b,
                      store (depth buf) a)
           \<and> (depth buf = D64 \<longrightarrow> getPixel buf' x y = Inr (r, g, b, a))
           \<and> (depth buf = D32 \<longrightarrow>
                getPixel buf' x y = Inr (fround r, fround g, fround b, fround a))"
proof -
  define i where "i = (y * width buf + x) * 4"
  define buf' where "buf' = put4 buf i (r, g, b, a)"
  have off: "offset buf x y = Inr i"
    unfolding i_def by (rule offset_in_bounds [OF assms(2-5)])
  have idx: "0 \<le> i" "i + 3 < int (length (data buf))"
    unfolding i_def by (rule index_in_data [OF assms])+
  have s: "setPixel buf x y (r, g, b, a) = Inr buf'"
    by (simp add: setPixel_def off buf'_def)
  have u: "setPixelUnchecked buf x y (r, g, b, a) = buf'"
    by (simp only: setPixelUnchecked_def buf'_def i_def)
  have "offset buf' x y = offset buf x y"
    by (simp add: offset_def buf'_def put4_fields)
  then have g: "getPixel buf' x y
      = Inr (store (depth buf) r, store (depth buf) g, store (depth buf) b, store (depth buf) a)"
    by (simp add: getPixel_def off buf'_def data_put4 [OF idx])
  show ?thesis
    using s u g by (auto simp: store_def)
qed

lemma store_zero: "store d (Fin 0) = Fin 0"
  using fround_zero by (cases d) (simp_all add: store_def)

lemma store_one: "store d (Fin 1) = Fin 1"
  using fround_one by (cases d) (simp_all add: store_def)

lemma buf_zero_ok: "buffer_ok buf_zero"
  by (simp add: buffer_ok_def buf_zero_def store_zero representable_zero)

lemma buf_white0_ok: "buffer_ok buf_white0"
  by (simp add: buffer_ok_def buf_white0_def store_zero store_one representable_zero
      representable_one)

lemma new_buf_zero: "new_ColorBuffer 1 1 D32 = Inr buf_zero"
  by (simp add: new_ColorBuffer_def buf_zero_def numeral_eq_Suc)

lemma put4_list:
  "put4 \<lparr>width = w, height = h, depth = d, data = [p, q, r, s]\<rparr> 0 (a, b, c, e)
     = \<lparr>width = w, height = h, depth = d, data = [store d a, store d b, store d c, store d e]\<rparr>"
  by (simp add: put4_def wr_def)

theorem set_get_roundtrip_witness:
  "\<exists>buf'. setPixel buf_zero 0 0 (1, 0, 0, 1) = Inr buf'
     \<and> setPixelUnchecked buf_zero 0 0 (1, 0, 0, 1) = buf'
     \<and> getPixel buf' 0 0 = Inr (1, 0, 0, 1)"
proof -
  have h: "0 \<le> (0::int)" "0 < width buf_zero" "0 < height buf_zero" "depth buf_zero = D32"
    by (simp_all add: buf_zero_def)
  from set_get_roundtrip [OF buf_zero_ok h(1) h(2) h(1) h(3), of 1 0 0 1] h(4)
    fround_zero fround_one
  show ?thesis by auto
qed

text \<open>
  Claim C6 as stated fails on a 32-bit buffer: after \<open>setPixel(0, 0, 0.1, 0, 0, 0)\<close> on the
  fresh buffer of one pixel, \<open>getPixel(0, 0)\<close> returns 13421773 / 134217728 for red, the
  binary32 value next to 0.1, where 0.1 is the number 3602879701896397 / 36028797018963968.
\<close>

theorem float32_store_is_lossy:
  "new_ColorBuffer 1 1 D32 = Inr buf_zero
   \<and> lit (1 / 10) = Fin (3602879701896397 / 36028797018963968)
   \<and> setPixel buf_zero 0 0 (lit (1 / 10), 0, 0, 0)
        = Inr (buf_zero\<lparr>data := [Fin (13421773 / 134217728), 0, 0, 0]\<rparr>)
   \<and> getPixel (buf_zero\<lparr>data := [Fin (13421773 / 134217728), 0, 0, 0]\<rparr>) 0 0
        = Inr (Fin (13421773 / 134217728), 0, 0, 0)
   \<and> getPixel (buf_zero\<lparr>data := [Fin (13421773 / 134217728), 0, 0, 0]\<rparr>) 0 0
        \<noteq> Inr (lit (1 / 10), 0, 0, 0)"
proof -
  have "setPixel buf_zero 0 0 (lit (1 / 10), 0, 0, 0)
        = Inr (buf_zero\<lparr>data := [Fin (13421773 / 134217728), 0, 0, 0]\<rparr>)"
    using fround_tenth
    by (simp add: setPixel_def offset_def buf_zero_def put4_list store_def binary32_zero
        fround_def)
  moreover have "getPixel (buf_zero\<lparr>data := [Fin (13421773 / 134217728), 0, 0, 0]\<rparr>) 0 0
        = Inr (Fin (13421773 / 134217728), 0, 0, 0)"
    by (simp add: getPixel_def offset_def buf_zero_def rd_def)
  ultimately show ?thesis
    using new_buf_zero lit_tenth by simp
qed

declare blendRowLoop.simps [simp del]
declare blendPixels.simps [simp del]

text \<open>
  Beyond the binary32 range the store is an infinity: so it is at \<open>2 ^ 128\<close>, and at
  \<open>2 ^ 128 - 2 ^ 103\<close>, halfway between the largest binary32 number and \<open>2 ^ 128\<close>.
\<close>

lemma fround_overflow:
  "fround (Fin (2 ^ 128)) = PInf" "fround (Fin (2 ^ 128 - 2 ^ 103)) = PInf"
proof -
  have "round_to 24 (- 126) (2 ^ 128) = 2 ^ 128"
    by (rule round_to_fixed [of _ 1 128]) simp_all
  then show "fround (Fin (2 ^ 128)) = PInf"
    by (simp add: fround_def binary32_def overflow_def)
  have "round_to 24 (- 126) (2 ^ 128 - 2 ^ 103)
      = of_int (round_half_even ((2 ^ 128 - 2 ^ 103) / 2 powi (max 127 (- 126) - (int 24 - 1))))
          * 2 powi (max 127 (- 126) - (int 24 - 1))"
    by (rule round_to_eval) simp_all
  also have "\<dots> = 2 ^ 128"
    by (simp add: round_half_even_def Let_def)
  finally show "fround (Fin (2 ^ 128 - 2 ^ 103)) = PInf"
    by (simp add: fround_def binary32_def overflow_def)
qed

lemma stored_fixed:
  assumes "buffer_ok buf" "0 \<le> i" "i < int (length (data buf))"
  shows "store (depth buf) (rd (data buf) i) = rd (data buf) i"
    "representable (rd (data buf) i)"
proof -
  have "list_all (\<lambda>v. representable v \<and> store (depth buf) v = v) (data buf)"
    using assms(1) by (simp add: buffer_ok_def)
  moreover have "nat i < length (data buf)"
    using assms(2,3) by simp
  ultimately have "representable (data buf ! nat i)
      \<and> store (depth buf) (data buf ! nat i) = data buf ! nat i"
    by (simp add: list_all_length)
  then show "store (depth buf) (rd (data buf) i) = rd (data buf) i"
    "representable (rd (data buf) i)"
    using assms(2,3) by (simp_all add: rd_def)
qed

lemma wr_same:
  assumes "store d (rd xs i) = rd xs i"
  shows "wr d xs i (rd xs i) = xs"
proof (cases "0 \<le> i \<and> i < int (length xs)")
  case True
  then show ?thesis using assms by (simp add: wr_def rd_def)
next
  case False
  then have "i < 0 \<or> length xs \<le> nat i" by linarith
  then show ?thesis by (auto simp: wr_def list_update_beyond)
qed

lemma put4_same:
  assumes ok: "buffer_ok buf" and i: "0 \<le> i" "i + 3 < int (length (data buf))"
  shows "put4 buf i (rd (data buf) i, rd (data buf) (i + 1), rd (data buf) (i + 2),
           rd (data buf) (i + 3)) = buf"
proof -
  have "store (depth buf) (rd (data buf) i) = rd (data buf) i"
    "store (depth buf) (rd (data buf) (i + 1)) = rd (data buf) (i + 1)"
    "store (depth buf) (rd (data buf) (i + 2)) = rd (data buf) (i + 2)"
    "store (depth buf) (rd (data buf) (i + 3)) = rd (data buf) (i + 3)"
    using i by (auto intro!: stored_fixed(1) [OF ok])
  then show ?thesis
    by (simp add: put4_def wr_same)
qed

lemma blend_tuple:
  "(case mode of
      Normal \<Rightarrow> (r, g, b)
    | Add \<Rightarrow> (n_add dstR r, n_add dstG g, n_add dstB b)
    | Multiply \<Rightarrow> (n_mult dstR r, n_mult dstG g, n_mult dstB b))
   = (blended mode dstR r, blended mode dstG g, blended mode dstB b)"
  by (cases mode) (simp_all add: blended_def)

lemma blend_at_zero_both:
  assumes "rd (data buf) (i + 3) = 0"
  shows "blend_at buf i (r, g, b, 0) mode = put4 buf i (0, 0, 0, 0)"
  using assms by (cases mode) (simp_all add: blend_at_def Let_def binary64_zero binary64_one)

text \<open>
  With source alpha 0, \<open>1 - a\<close> is 1, the product of the blended colour and \<open>a\<close> is 0 when
  the blended colour is finite, and \<open>outA\<close> is the stored alpha \<open>dstA\<close>: the colour channel
  that is stored is \<open>(dst * dstA) / dstA\<close>, each operation rounded.
\<close>

lemma blend_channel_zero_alpha:
  assumes "is_finite bl" "representable (Fin z)" "z \<noteq> 0"
  shows "n_add (Fin 0) (n_mult (Fin z) (n_sub (Fin 1) (Fin 0))) = Fin z"
    "n_div (n_add (n_mult bl (Fin 0)) (n_mult (n_mult dst (Fin z)) (n_sub (Fin 1) (Fin 0))))
           (Fin z)
       = n_div (n_mult dst (Fin z)) (Fin z)"
proof -
  have z: "binary64 z = Fin z"
    using assms(2) by (simp add: representable_def)
  show "n_add (Fin 0) (n_mult (Fin z) (n_sub (Fin 1) (Fin 0))) = Fin z"
    by (simp add: binary64_one z)
  obtain t where t: "bl = Fin t"
    using assms(1) by (cases bl) (simp_all add: is_finite_def)
  have "n_mult (n_mult dst (Fin z)) (n_sub (Fin 1) (Fin 0)) = n_mult dst (Fin z)"
    unfolding n_sub_one_zero by (rule n_mult_one_right) (rule representable_n_mult)
  moreover have "n_mult bl (Fin 0) = Fin 0"
    unfolding t by (rule n_mult_zero_right)
  moreover have "n_add (Fin 0) (n_mult dst (Fin z)) = n_mult dst (Fin z)"
    by (rule n_add_zero_left) (rule representable_n_mult)
  ultimately show "n_div (n_add (n_mult bl (Fin 0))
           (n_mult (n_mult dst (Fin z)) (n_sub (Fin 1) (Fin 0)))) (Fin z)
       = n_div (n_mult dst (Fin z)) (Fin z)"
    by simp
qed

lemma blend_at_zero_alpha:
  assumes "rd (data buf) (i + 3) = Fin z" "z \<noteq> 0" "representable (Fin z)"
    and "is_finite (blended mode (rd (data buf) i) r)"
      "is_finite (blended mode (rd (data buf) (i + 1)) g)"
      "is_finite (blended mode (rd (data buf) (i + 2)) b)"
  shows "blend_at buf i (r, g, b, 0) mode
           = put4 buf i (n_div (n_mult (rd (data buf) i) (Fin z)) (Fin z),
                         n_div (n_mult (rd (data buf) (i + 1)) (Fin z)) (Fin z),
                         n_div (n_mult (rd (data buf) (i + 2)) (Fin z)) (Fin z),
                         Fin z)"
  unfolding blend_at_def Let_def blend_tuple prod.case assms(1) zero_number_def one_number_def
    blend_channel_zero_alpha(1) [OF assms(4,3,2)]
    blend_channel_zero_alpha(2) [OF assms(4,3,2)]
    blend_channel_zero_alpha(2) [OF assms(5,3,2)]
    blend_channel_zero_alpha(2) [OF assms(6,3,2)]
  using assms(2) by simp

lemma blend_channel_opaque:
  assumes "representable dst"
  shows "n_div (n_mult dst (Fin 1)) (Fin 1) = dst"
  using assms by (simp add: n_mult_one_right n_div_one_right)

lemma quotient_near:
  assumes d: "binary32 d = Fin d" and z: "binary32 z = Fin z" "z \<noteq> 0"
  shows "\<exists>q. n_div (n_mult (Fin d) (Fin z)) (Fin z) = Fin q \<and> \<bar>q - d\<bar> \<le> \<bar>d\<bar> / 2 ^ 50"
proof (cases "d = 0")
  case True
  then show ?thesis using z(2) by (simp add: binary64_zero)
next
  case False
  note md = binary32_magnitude [OF d False]
  note mz = binary32_magnitude [OF z]
  have zp: "0 < \<bar>z\<bar>" using z(2) by simp
  have dp: "0 < \<bar>d\<bar>" using False by simp
  define P where "P = d * z"
  have aP: "\<bar>P\<bar> = \<bar>d\<bar> * \<bar>z\<bar>" by (simp add: P_def abs_mult)
  have tiny: "(2::real) powi (- 1022) \<le> 2 powi (- 149) * (2 powi (- 149) / 4)"
    by (simp add: power_int_minus divide_simps)
  have "2 powi (- 149) * 2 powi (- 149) \<le> \<bar>d\<bar> * \<bar>z\<bar>"
    using md(1) mz(1) by (intro mult_mono) simp_all
  then have P1: "2 powi (- 1022) \<le> \<bar>P\<bar>"
    using tiny by (simp add: aP)
  have "\<bar>d\<bar> * \<bar>z\<bar> \<le> 2 ^ 128 * 2 ^ 128"
    using md(2) mz(2) by (intro mult_mono) simp_all
  then have P2: "\<bar>P\<bar> < 2 ^ 1023"
    by (simp add: aP)
  from binary64_error [OF P1 P2] obtain p where
    p: "binary64 P = Fin p" "\<bar>p - P\<bar> \<le> \<bar>P\<bar> / 2 ^ 53"
    by blast
  define Q where "Q = p / z"
  have Qd: "\<bar>Q - d\<bar> \<le> \<bar>d\<bar> / 2 ^ 53"
  proof -
    have "Q - d = (p - P) / z" using z(2) by (simp add: Q_def P_def diff_divide_distrib)
    then have "\<bar>Q - d\<bar> = \<bar>p - P\<bar> / \<bar>z\<bar>" by (simp add: abs_divide)
    also have "\<dots> \<le> (\<bar>P\<bar> / 2 ^ 53) / \<bar>z\<bar>"
      using p(2) zp by (intro divide_right_mono) simp_all
    also have "\<dots> = \<bar>d\<bar> / 2 ^ 53"
      using zp by (simp add: aP)
    finally show ?thesis .
  qed
  have "\<bar>d\<bar> / 2 ^ 53 \<le> \<bar>d\<bar> / 2"
    using dp by (intro divide_left_mono) simp_all
  then have Qb: "\<bar>d\<bar> / 2 \<le> \<bar>Q\<bar>" "\<bar>Q\<bar> \<le> 2 * \<bar>d\<bar>"
    using Qd by linarith+
  have tiny2: "(2::real) powi (- 1022) \<le> 2 powi (- 149) / 2"
    by (simp add: power_int_minus divide_simps)
  have Q1: "2 powi (- 1022) \<le> \<bar>Q\<bar>"
    using Qb(1) md(1) tiny2 by linarith
  have "(2::real) * 2 ^ 128 < 2 ^ 1023" by simp
  then have Q2: "\<bar>Q\<bar> < 2 ^ 1023"
    using Qb(2) md(2) by linarith
  from binary64_error [OF Q1 Q2] obtain q where
    q: "binary64 Q = Fin q" "\<bar>q - Q\<bar> \<le> \<bar>Q\<bar> / 2 ^ 53"
    by blast
  have "\<bar>Q\<bar> / 2 ^ 53 \<le> 2 * \<bar>d\<bar> / 2 ^ 53"
    using Qb(2) by (intro divide_right_mono) simp_all
  then have "\<bar>q - d\<bar> \<le> 2 * \<bar>d\<bar> / 2 ^ 53 + \<bar>d\<bar> / 2 ^ 53"
    using q(2) Qd by linarith
  also have "\<dots> \<le> \<bar>d\<bar> / 2 ^ 50"
    using dp by simp
  finally have e: "\<bar>q - d\<bar> \<le> \<bar>d\<bar> / 2 ^ 50" .
  have "n_div (n_mult (Fin d) (Fin z)) (Fin z) = Fin q"
    using z(2) by (simp only: n_mult.simps n_div.simps P_def [symmetric] p(1) Q_def [symmetric]
        q(1) if_False)
  with e show ?thesis by blast
qed

text \<open>
  On a 32-bit buffer the quotient \<open>(dst * dstA) / dstA\<close> is stored as \<open>dst\<close>: the two
  roundings of binary64 move it by less than three parts in \<open>2 ^ 53\<close>, and the store
  rounds it back to the binary32 number \<open>dst\<close>.
\<close>

lemma fround_quotient:
  assumes dst: "fround dst = dst" and z: "fround (Fin z) = Fin z" "z \<noteq> 0"
  shows "fround (n_div (n_mult dst (Fin z)) (Fin z)) = dst"
proof (cases dst)
  case (Fin d)
  have d: "binary32 d = Fin d" using dst Fin by (simp add: fround_def)
  have z': "binary32 z = Fin z" using z(1) by (simp add: fround_def)
  from quotient_near [OF d z' z(2)] obtain q where
    q: "n_div (n_mult (Fin d) (Fin z)) (Fin z) = Fin q" "\<bar>q - d\<bar> \<le> \<bar>d\<bar> / 2 ^ 50"
    by blast
  have "binary32 q = Fin d"
    by (rule binary32_near_fixed [OF d q(2)])
  then show ?thesis
    unfolding Fin q(1) by (simp add: fround_def)
next
  case PInf
  then show ?thesis using z(2) by (simp add: fround_def)
next
  case NInf
  then show ?thesis using z(2) by (simp add: fround_def)
next
  case NaN
  then show ?thesis by (simp add: fround_def)
qed


lemma wr_stored:
  assumes "store d v = rd xs i"
  shows "wr d xs i v = xs"
proof (cases "0 \<le> i \<and> i < int (length xs)")
  case True
  then show ?thesis using assms by (simp add: wr_def rd_def)
next
  case False
  then have "i < 0 \<or> length xs \<le> nat i" by linarith
  then show ?thesis by (auto simp: wr_def list_update_beyond)
qed

lemma put4_stored:
  assumes "store (depth buf) c1 = rd (data buf) i" "store (depth buf) c2 = rd (data buf) (i + 1)"
    "store (depth buf) c3 = rd (data buf) (i + 2)" "store (depth buf) c4 = rd (data buf) (i + 3)"
  shows "put4 buf i (c1, c2, c3, c4) = buf"
  using assms by (simp add: put4_def wr_stored)

text \<open>
  Claim C2, as the code has it. On a buffer as the constructor and the operations leave
  it, for every in-bounds pixel, every mode and every source colour, \<open>blendPixel\<close> with
  source alpha 0 sets the pixel to (0, 0, 0, 0) when its stored alpha is 0. When the
  colour that the mode blends is finite in its three channels (in mode 'normal': when the
  source colour is finite) and the stored alpha \<open>dstA\<close> is finite and not 0, it keeps the
  alpha and stores for each colour channel \<open>dst\<close> the quotient \<open>(dst * dstA) / dstA\<close> of
  binary64 arithmetic, which is \<open>dst\<close> up to the rounding of the product and of the
  quotient: the whole buffer is unchanged when the stored alpha is 1, and on every 32-bit
  buffer, where the store rounds the quotient back to \<open>dst\<close>.
\<close>

theorem blend_zero_alpha:
  assumes "buffer_ok buf" "0 \<le> x" "x < width buf" "0 \<le> y" "y < height buf"
  shows "\<exists>dr dg db da.
           getPixel buf x y = Inr (dr, dg, db, da)
           \<and> (da = 0 \<longrightarrow>
                (\<exists>buf'. blendPixel buf x y (r, g, b, 0) mode = Inr buf'
                   \<and> getPixel buf' x y = Inr (0, 0, 0, 0)))
           \<and> (is_finite (blended mode dr r) \<and> is_finite (blended mode dg g)
                \<and> is_finite (blended mode db b) \<longrightarrow>
                (da = 1 \<longrightarrow> blendPixel buf x y (r, g, b, 0) mode = Inr buf)
                \<and> (depth buf = D32 \<and> is_finite da \<and> da \<noteq> 0 \<longrightarrow>
                     blendPixel buf x y (r, g, b, 0) mode = Inr buf)
                \<and> (is_finite da \<and> da \<noteq> 0 \<longrightarrow>
                     (\<exists>buf'. blendPixel buf x y (r, g, b, 0) mode = Inr buf'
                        \<and> getPixel buf' x y
                            = Inr (store (depth buf) (n_div (n_mult dr da) da),
                                   store (depth buf) (n_div (n_mult dg da) da),
                                   store (depth buf) (n_div (n_mult db da) da),
                                   da))))"
proof -
  define i where "i = (y * width buf + x) * 4"
  define dr where "dr = rd (data buf) i"
  define dg where "dg = rd (data buf) (i + 1)"
  define db where "db = rd (data buf) (i + 2)"
  define da where "da = rd (data buf) (i + 3)"
  have off: "offset buf x y = Inr i"
    unfolding i_def by (rule offset_in_bounds [OF assms(2-5)])
  have idx: "0 \<le> i" "i + 3 < int (length (data buf))"
    unfolding i_def by (rule index_in_data [OF assms])+
  have g: "getPixel buf x y = Inr (dr, dg, db, da)"
    by (simp add: getPixel_def off dr_def dg_def db_def da_def)
  have fixed: "store (depth buf) da = da" "representable da"
    "representable dr" "representable dg" "representable db"
    "store (depth buf) dr = dr" "store (depth buf) dg = dg" "store (depth buf) db = db"
    unfolding da_def dr_def dg_def db_def using idx by (auto intro!: stored_fixed [OF assms(1)])
  have get: "getPixel (put4 buf i (c1, c2, c3, c4)) x y
      = Inr (store (depth buf) c1, store (depth buf) c2, store (depth buf) c3,
             store (depth buf) c4)" for c1 c2 c3 c4
  proof -
    have "offset (put4 buf i (c1, c2, c3, c4)) x y = offset buf x y"
      by (simp add: offset_def put4_fields)
    then show ?thesis
      by (simp add: getPixel_def off data_put4 [OF idx])
  qed
  have zero: "\<exists>buf'. blendPixel buf x y (r, g, b, 0) mode = Inr buf'
                   \<and> getPixel buf' x y = Inr (0, 0, 0, 0)" if "da = 0"
  proof -
    have "blendPixel buf x y (r, g, b, 0) mode = Inr (put4 buf i (0, 0, 0, 0))"
      using that blend_at_zero_both [of buf i r g b mode]
      by (simp add: blendPixel_def off da_def)
    moreover have "getPixel (put4 buf i (0, 0, 0, 0)) x y = Inr (0, 0, 0, 0)"
      unfolding get by (simp add: store_zero)
    ultimately show ?thesis by blast
  qed
  have general: "blendPixel buf x y (r, g, b, 0) mode
      = Inr (put4 buf i (n_div (n_mult dr da) da, n_div (n_mult dg da) da,
                          n_div (n_mult db da) da, da))"
    if fin: "is_finite (blended mode dr r)" "is_finite (blended mode dg g)"
      "is_finite (blended mode db b)" and da: "is_finite da" "da \<noteq> 0"
  proof -
    obtain z where z: "da = Fin z"
      using da(1) by (cases da) (simp_all add: is_finite_def)
    have z0: "z \<noteq> 0" using da(2) z by simp
    have rz: "representable (Fin z)" using fixed(2) z by simp
    have "blend_at buf i (r, g, b, 0) mode
           = put4 buf i (n_div (n_mult (rd (data buf) i) (Fin z)) (Fin z),
                         n_div (n_mult (rd (data buf) (i + 1)) (Fin z)) (Fin z),
                         n_div (n_mult (rd (data buf) (i + 2)) (Fin z)) (Fin z),
                         Fin z)"
      by (rule blend_at_zero_alpha [OF _ z0 rz])
        (use z fin in \<open>simp_all add: da_def dr_def dg_def db_def\<close>)
    then show ?thesis
      by (simp add: blendPixel_def off z dr_def dg_def db_def)
  qed
  have opaque: "blendPixel buf x y (r, g, b, 0) mode = Inr buf"
    if fin: "is_finite (blended mode dr r)" "is_finite (blended mode dg g)"
      "is_finite (blended mode db b)" and da: "da = 1"
  proof -
    have "is_finite da" "da \<noteq> 0" using da by (simp_all add: is_finite_def)
    from general [OF fin this]
    have "blendPixel buf x y (r, g, b, 0) mode
      = Inr (put4 buf i (n_div (n_mult dr (Fin 1)) (Fin 1), n_div (n_mult dg (Fin 1)) (Fin 1),
                          n_div (n_mult db (Fin 1)) (Fin 1), da))"
      using da by simp
    also have "\<dots> = Inr (put4 buf i (dr, dg, db, da))"
      by (simp only: blend_channel_opaque [OF fixed(3)] blend_channel_opaque [OF fixed(4)]
          blend_channel_opaque [OF fixed(5)])
    also have "put4 buf i (dr, dg, db, da) = buf"
      unfolding dr_def dg_def db_def da_def by (rule put4_same [OF assms(1) idx])
    finally show ?thesis .
  qed
  have single: "blendPixel buf x y (r, g, b, 0) mode = Inr buf"
    if fin: "is_finite (blended mode dr r)" "is_finite (blended mode dg g)"
      "is_finite (blended mode db b)" and d32: "depth buf = D32"
      and da: "is_finite da" "da \<noteq> 0"
  proof -
    obtain z where z: "da = Fin z"
      using da(1) by (cases da) (simp_all add: is_finite_def)
    have z0: "z \<noteq> 0" using da(2) z by simp
    have fz: "fround (Fin z) = Fin z"
      using fixed(1) by (simp add: z d32 store_def)
    have f: "fround dr = dr" "fround dg = dg" "fround db = db"
      using fixed(6,7,8) by (simp_all add: d32 store_def)
    have q: "store (depth buf) (n_div (n_mult dr da) da) = rd (data buf) i"
      "store (depth buf) (n_div (n_mult dg da) da) = rd (data buf) (i + 1)"
      "store (depth buf) (n_div (n_mult db da) da) = rd (data buf) (i + 2)"
      "store (depth buf) da = rd (data buf) (i + 3)"
      unfolding z using fround_quotient [OF f(1) fz z0] fround_quotient [OF f(2) fz z0]
        fround_quotient [OF f(3) fz z0] fz
      by (simp_all add: d32 store_def dr_def dg_def db_def da_def [symmetric] z)
    show ?thesis
      unfolding general [OF fin da] by (simp only: put4_stored [OF q])
  qed
  have other: "\<exists>buf'. blendPixel buf x y (r, g, b, 0) mode = Inr buf'
                        \<and> getPixel buf' x y
                            = Inr (store (depth buf) (n_div (n_mult dr da) da),
                                   store (depth buf) (n_div (n_mult dg da) da),
                                   store (depth buf) (n_div (n_mult db da) da),
                                   da)"
    if fin: "is_finite (blended mode dr r)" "is_finite (blended mode dg g)"
      "is_finite (blended mode db b)" and da: "is_finite da" "da \<noteq> 0"
    using general [OF fin da] get fixed(1) by simp
  from g zero opaque single other show ?thesis by blast
qed

text \<open>Two buffers of one pixel: opaque at depth 64, and of alpha 0.25 at depth 32.\<close>

lemma buf_half_ok:
  "buffer_ok \<lparr>width = 1, height = 1, depth = D64, data = [Fin (1 / 2), 0, 0, 1]\<rparr>"
  "buffer_ok \<lparr>width = 1, height = 1, depth = D32, data = [Fin (1 / 2), 0, 0, Fin (1 / 4)]\<rparr>"
proof -
  have "binary32 (1 / 2) = Fin (1 / 2)" "binary32 (1 / 4) = Fin (1 / 4)"
    using binary32_dyadic [of 1 1] binary32_dyadic [of 1 2] by simp_all
  then show
    "buffer_ok \<lparr>width = 1, height = 1, depth = D64, data = [Fin (1 / 2), 0, 0, 1]\<rparr>"
    "buffer_ok \<lparr>width = 1, height = 1, depth = D32, data = [Fin (1 / 2), 0, 0, Fin (1 / 4)]\<rparr>"
    by (simp_all add: buffer_ok_def store_def fround_def binary32_zero
        representable_def binary64_values binary64_zero binary64_one)
qed

theorem blend_zero_alpha_witness:
  "getPixel buf_white0 0 0 = Inr (1, 1, 1, 0)
   \<and> (\<exists>buf'. blendPixel buf_white0 0 0 (1, 0, 0, 0) Add = Inr buf'
              \<and> getPixel buf' 0 0 = Inr (0, 0, 0, 0))
   \<and> blendPixel \<lparr>width = 1, height = 1, depth = D64, data = [Fin (1 / 2), 0, 0, 1]\<rparr> 0 0
         (1, 0, 0, 0) Normal
       = Inr \<lparr>width = 1, height = 1, depth = D64, data = [Fin (1 / 2), 0, 0, 1]\<rparr>
   \<and> blendPixel \<lparr>width = 1, height = 1, depth = D32, data = [Fin (1 / 2), 0, 0, Fin (1 / 4)]\<rparr>
         0 0 (1, 0, 0, 0) Normal
       = Inr \<lparr>width = 1, height = 1, depth = D32, data = [Fin (1 / 2), 0, 0, Fin (1 / 4)]\<rparr>"
proof -
  let ?buf = "\<lparr>width = 1, height = 1, depth = D64, data = [Fin (1 / 2), 0, 0, 1 :: number]\<rparr>"
  let ?buf' = "\<lparr>width = 1, height = 1, depth = D32, data = [Fin (1 / 2), 0, 0, Fin (1 / 4)]\<rparr>"
  have h: "0 \<le> (0::int)" "0 < width buf_white0" "0 < height buf_white0"
    by (simp_all add: buf_white0_def)
  have k: "0 < width ?buf" "0 < height ?buf" "0 < width ?buf'" "0 < height ?buf'"
    by simp_all
  have g: "getPixel buf_white0 0 0 = Inr (1, 1, 1, 0)"
    by (simp add: getPixel_def offset_def buf_white0_def rd_def)
  have g': "getPixel ?buf 0 0 = Inr (Fin (1 / 2), 0, 0, 1)"
    by (simp add: getPixel_def offset_def rd_def)
  have g'': "getPixel ?buf' 0 0 = Inr (Fin (1 / 2), 0, 0, Fin (1 / 4))"
    by (simp add: getPixel_def offset_def rd_def)
  have f: "is_finite (blended Normal (Fin (1 / 2)) 1)" "is_finite (blended Normal 0 0)"
    "is_finite (Fin (1 / 4))" "Fin (1 / 4) \<noteq> 0" "depth ?buf' = D32"
    by (simp_all add: blended_def is_finite_def)
  from blend_zero_alpha [OF buf_white0_ok h(1) h(2) h(1) h(3), of 1 0 0 Add] g
  have 1: "\<exists>buf'. blendPixel buf_white0 0 0 (1, 0, 0, 0) Add = Inr buf'
              \<and> getPixel buf' 0 0 = Inr (0, 0, 0, 0)"
    by auto
  from blend_zero_alpha [OF buf_half_ok(1) h(1) k(1) h(1) k(2), of 1 0 0 Normal] g' f
  have 2: "blendPixel ?buf 0 0 (1, 0, 0, 0) Normal = Inr ?buf"
    by auto
  from blend_zero_alpha [OF buf_half_ok(2) h(1) k(3) h(1) k(4), of 1 0 0 Normal] g'' f
  have 3: "blendPixel ?buf' 0 0 (1, 0, 0, 0) Normal = Inr ?buf'"
    by auto
  from g 1 2 3 show ?thesis by (intro conjI)
qed

text \<open>
  Claim C2 as stated fails where the stored alpha is 0 and the stored colour is not:
  \<open>blendPixel(0, 0, 1, 0, 0, 0, 'normal')\<close> turns the pixel (1, 1, 1, 0) into (0, 0, 0, 0).
\<close>

theorem blend_zero_alpha_clears:
  "buffer_ok buf_white0
   \<and> getPixel buf_white0 0 0 = Inr (1, 1, 1, 0)
   \<and> blendPixel buf_white0 0 0 (1, 0, 0, 0) Normal = Inr buf_zero
   \<and> getPixel buf_zero 0 0 = Inr (0, 0, 0, 0)
   \<and> blendPixel buf_white0 0 0 (1, 0, 0, 0) Normal \<noteq> Inr buf_white0"
proof -
  have "blendPixel buf_white0 0 0 (1, 0, 0, 0) Normal = Inr buf_zero"
    by (simp add: blendPixel_def offset_def buf_white0_def blend_at_def Let_def rd_def put4_list
        store_zero buf_zero_def binary64_zero binary64_one)
  moreover have "getPixel buf_white0 0 0 = Inr (1, 1, 1, 0)"
    by (simp add: getPixel_def offset_def buf_white0_def rd_def)
  moreover have "getPixel buf_zero 0 0 = Inr (0, 0, 0, 0)"
    by (simp add: getPixel_def offset_def buf_zero_def rd_def)
  moreover have "buf_zero \<noteq> buf_white0"
    by (simp add: buf_zero_def buf_white0_def)
  ultimately show ?thesis
    using buf_white0_ok by simp
qed

text \<open>
  The rounding of the product and of the quotient shows on a 64-bit buffer: with the
  stored colour 0.1 and the stored alpha 0.1, a blend with source alpha 0 stores
  \<open>(0.1 * 0.1) / 0.1\<close>, which is 0.10000000000000002, the binary64 number after 0.1.
\<close>

lemma blend_zero_alpha_rounds:
  "lit (1 / 10) = Fin (7205759403792794 / 72057594037927936)
   \<and> buffer_ok \<lparr>width = 1, height = 1, depth = D64, data = [lit (1 / 10), 0, 0, lit (1 / 10)]\<rparr>
   \<and> blendPixel \<lparr>width = 1, height = 1, depth = D64, data = [lit (1 / 10), 0, 0, lit (1 / 10)]\<rparr>
        0 0 (0, 0, 0, 0) Normal
       = Inr \<lparr>width = 1, height = 1, depth = D64,
               data = [Fin (7205759403792795 / 72057594037927936), 0, 0, lit (1 / 10)]\<rparr>"
proof -
  let ?t = "3602879701896397 / 36028797018963968 :: real"
  let ?buf = "\<lparr>width = 1, height = 1, depth = D64, data = [Fin ?t, 0, 0, Fin ?t]\<rparr>"
  have l: "lit (1 / 10) = Fin ?t"
    by (rule lit_tenth)
  have rt: "representable (Fin ?t)"
    using lit_representable [OF l] by (simp add: representable_def)
  have t0: "?t \<noteq> 0" by simp
  have ok: "buffer_ok ?buf"
    using rt by (simp add: buffer_ok_def store_def representable_zero)
  have p: "binary64 (?t * ?t) = Fin (1441151880758559 / 144115188075855872)"
  proof -
    have "binary64 (?t * ?t) = Fin (of_int 5764607523034236 * 2 powi (- 7 - 52))"
      by (rule binary64_eval) (simp_all add: round_half_even_def Let_def power_int_minus)
    then show ?thesis by (simp add: power_int_minus)
  qed
  have q: "binary64 (1441151880758559 / 144115188075855872 / ?t)
      = Fin (7205759403792795 / 72057594037927936)"
  proof -
    have "binary64 (1441151880758559 / 144115188075855872 / ?t)
        = Fin (of_int 7205759403792795 * 2 powi (- 4 - 52))"
      by (rule binary64_eval) (simp_all add: round_half_even_def Let_def power_int_minus)
    then show ?thesis by (simp add: power_int_minus)
  qed
  have red: "n_div (n_mult (Fin ?t) (Fin ?t)) (Fin ?t)
      = Fin (7205759403792795 / 72057594037927936)"
    using t0 by (simp only: n_mult.simps n_div.simps p q if_False)
  have zero: "n_div (n_mult (Fin 0) (Fin ?t)) (Fin ?t) = Fin 0"
    by (simp add: binary64_zero)
  have f: "is_finite (blended Normal (Fin ?t) (Fin 0))" "is_finite (blended Normal (Fin 0) (Fin 0))"
    by (simp_all add: blended_def is_finite_def)
  have "blend_at ?buf 0 (0, 0, 0, 0) Normal
      = put4 ?buf 0 (n_div (n_mult (rd (data ?buf) 0) (Fin ?t)) (Fin ?t),
                    n_div (n_mult (rd (data ?buf) (0 + 1)) (Fin ?t)) (Fin ?t),
                    n_div (n_mult (rd (data ?buf) (0 + 2)) (Fin ?t)) (Fin ?t),
                    Fin ?t)"
    by (rule blend_at_zero_alpha [OF _ t0 rt]) (use f in \<open>simp_all add: rd_def\<close>)
  also have "\<dots> = put4 ?buf 0 (n_div (n_mult (Fin ?t) (Fin ?t)) (Fin ?t),
                    n_div (n_mult (Fin 0) (Fin ?t)) (Fin ?t),
                    n_div (n_mult (Fin 0) (Fin ?t)) (Fin ?t),
                    Fin ?t)"
    by (simp add: rd_def)
  also have "\<dots> = \<lparr>width = 1, height = 1, depth = D64,
               data = [Fin (7205759403792795 / 72057594037927936), 0, 0, Fin ?t]\<rparr>"
    unfolding red zero by (simp add: put4_list store_def)
  finally have b: "blendPixel ?buf 0 0 (0, 0, 0, 0) Normal
       = Inr \<lparr>width = 1, height = 1, depth = D64,
               data = [Fin (7205759403792795 / 72057594037927936), 0, 0, Fin ?t]\<rparr>"
    by (simp add: blendPixel_def offset_def)
  have e: "Fin ?t = Fin (7205759403792794 / 72057594037927936)"
    by simp
  show ?thesis
    unfolding l using ok b e by (intro conjI)
qed

lemma blend_at_fields:
  "width (blend_at buf i c mode) = width buf" "height (blend_at buf i c mode) = height buf"
  by (cases c; cases mode; simp add: blend_at_def Let_def put4_fields)+

lemma row_matches_checked_calls:
  assumes y: "0 \<le> y" "y < height buf" and x: "0 \<le> startX" "startX + pixelCount \<le> width buf"
    and p: "0 \<le> p"
    and skip: "skip \<or> (\<forall>q. p \<le> q \<and> q < pixelCount \<longrightarrow> rd floats (q * 4 + 3) \<noteq> 0)"
  shows "blendPixels skip y startX pixelCount floats mode p buf
           = Inr (blendRowLoop pixelCount floats mode p ((y * width buf + startX + p) * 4) buf)"
  using y x p skip
proof (induction "nat (pixelCount - p)" arbitrary: p buf)
  case 0
  then have "\<not> p < pixelCount" by simp
  then show ?case
    by (subst blendPixels.simps, subst blendRowLoop.simps) simp
next
  case (Suc n)
  then have lt: "p < pixelCount" by linarith
  define i where "i = (y * width buf + startX + p) * 4"
  define c where "c = (rd floats (p * 4), rd floats (p * 4 + 1), rd floats (p * 4 + 2),
                 rd floats (p * 4 + 3))"
  have n: "n = nat (pixelCount - (p + 1))" using Suc.hyps(2) by linarith
  have next_idx: "(y * width b + startX + (p + 1)) * 4 = i + 4" if "width b = width buf" for b
    using that by (simp add: i_def algebra_simps)
  have skip': "skip \<or> (\<forall>q. p + 1 \<le> q \<and> q < pixelCount \<longrightarrow> rd floats (q * 4 + 3) \<noteq> 0)"
    using Suc.prems(6) by auto
  have off: "offset buf (startX + p) y = Inr i"
    using Suc.prems(1-5) lt by (simp add: offset_def i_def algebra_simps)
  show ?case
  proof (cases "rd floats (p * 4 + 3) = 0")
    case True
    then have sk: skip using Suc.prems(5,6) lt by auto
    have "blendPixels skip y startX pixelCount floats mode (p + 1) buf
           = Inr (blendRowLoop pixelCount floats mode (p + 1)
                    ((y * width buf + startX + (p + 1)) * 4) buf)"
      by (rule Suc.hyps(1) [OF n Suc.prems(1-4) _ skip']) (use Suc.prems(5) in simp)
    then have "blendPixels skip y startX pixelCount floats mode (p + 1) buf
           = Inr (blendRowLoop pixelCount floats mode (p + 1) (i + 4) buf)"
      by (simp only: next_idx [OF refl])
    moreover have "blendPixels skip y startX pixelCount floats mode p buf
               = blendPixels skip y startX pixelCount floats mode (p + 1) buf"
      using True sk lt by (subst blendPixels.simps) simp
    moreover have "blendRowLoop pixelCount floats mode p i buf
               = blendRowLoop pixelCount floats mode (p + 1) (i + 4) buf"
      using True lt by (subst blendRowLoop.simps) simp
    ultimately have "blendPixels skip y startX pixelCount floats mode p buf
               = Inr (blendRowLoop pixelCount floats mode p i buf)"
      by simp
    then show ?thesis
      by (simp only: i_def)
  next
    case False
    define buf' where "buf' = blend_at buf i c mode"
    have f: "width buf' = width buf" "height buf' = height buf"
      by (simp_all add: buf'_def blend_at_fields)
    have "blendPixels skip y startX pixelCount floats mode (p + 1) buf'
           = Inr (blendRowLoop pixelCount floats mode (p + 1) ((y * width buf' + startX + (p + 1)) * 4) buf')"
      using Suc.prems(1-5) f by (intro Suc.hyps(1) [OF n _ _ _ _ _ skip']) simp_all
    then have ih: "blendPixels skip y startX pixelCount floats mode (p + 1) buf'
           = Inr (blendRowLoop pixelCount floats mode (p + 1) (i + 4) buf')"
      by (simp only: next_idx [OF f(1)])
    have l: "blendPixels skip y startX pixelCount floats mode p buf
               = blendPixels skip y startX pixelCount floats mode (p + 1) buf'"
      using False lt
      by (subst blendPixels.simps) (simp add: blendPixel_def off buf'_def c_def)
    have r: "blendRowLoop pixelCount floats mode p i buf
               = blendRowLoop pixelCount floats mode (p + 1) (i + 4) buf'"
      using False lt
      by (subst blendRowLoop.simps) (simp add: buf'_def c_def Let_def)
    have "blendPixels skip y startX pixelCount floats mode p buf
               = Inr (blendRowLoop pixelCount floats mode p i buf)"
      using l r ih by simp
    then show ?thesis
      by (simp only: i_def)
  qed
qed


text \<open>
  Claim C1, as the code has it. For a row inside the buffer, \<open>blendRowUnchecked\<close> leaves
  the buffer that the checked \<open>blendPixel\<close> calls leave when the calls with source alpha 0
  are left out; hence the buffer of all the checked calls whenever no source alpha of the
  row is 0.
\<close>

theorem blendRow_vs_blendPixel:
  assumes "0 \<le> y" "y < height buf" "0 \<le> startX" "startX + pixelCount \<le> width buf"
  shows "blendPixels True y startX pixelCount floats mode 0 buf
           = Inr (blendRowUnchecked buf y startX pixelCount floats mode)
         \<and> ((\<forall>p. 0 \<le> p \<and> p < pixelCount \<longrightarrow> rd floats (p * 4 + 3) \<noteq> 0) \<longrightarrow>
              blendPixels False y startX pixelCount floats mode 0 buf
                = Inr (blendRowUnchecked buf y startX pixelCount floats mode))"
proof -
  have z: "(y * width buf + startX + 0) * 4 = (y * width buf + startX) * 4"
    by simp
  have "blendPixels skip y startX pixelCount floats mode 0 buf
           = Inr (blendRowUnchecked buf y startX pixelCount floats mode)"
    if "skip \<or> (\<forall>q. 0 \<le> q \<and> q < pixelCount \<longrightarrow> rd floats (q * 4 + 3) \<noteq> 0)" for skip
    using row_matches_checked_calls [OF assms _ that, of mode]
    by (simp only: blendRowUnchecked_def z)
  from this [of True] this [of False] show ?thesis
    by blast
qed

lemma row_opaque:
  "\<forall>p. 0 \<le> p \<and> p < (1::int) \<longrightarrow> rd [1, 0, 0, 1 :: number] (p * 4 + 3) \<noteq> 0"
proof (intro allI impI)
  fix p :: int
  assume "0 \<le> p \<and> p < 1"
  then have "p = 0" by simp
  then show "rd [1, 0, 0, 1 :: number] (p * 4 + 3) \<noteq> 0"
    by (simp add: rd_def)
qed

theorem blendRow_vs_blendPixel_witness:
  "blendPixels False 0 0 1 [1, 0, 0, 1] Normal 0 buf_white0
     = Inr (blendRowUnchecked buf_white0 0 0 1 [1, 0, 0, 1] Normal)
   \<and> blendPixels True 0 0 1 [1, 0, 0, 0] Normal 0 buf_white0
     = Inr (blendRowUnchecked buf_white0 0 0 1 [1, 0, 0, 0] Normal)"
proof -
  have h: "(0::int) \<le> 0" "0 < height buf_white0" "0 + 1 \<le> width buf_white0"
    by (simp_all add: buf_white0_def)
  from blendRow_vs_blendPixel [OF h(1) h(2) h(1) h(3), of "[1, 0, 0, 1]" Normal]
    blendRow_vs_blendPixel [OF h(1) h(2) h(1) h(3), of "[1, 0, 0, 0]" Normal] row_opaque
  show ?thesis by blast
qed

lemma row_transparent_keeps:
  "blendRowUnchecked buf_white0 0 0 1 [1, 0, 0, 0] Normal = buf_white0"
  unfolding blendRowUnchecked_def
  by (subst blendRowLoop.simps, subst blendRowLoop.simps) (simp add: rd_def)

lemma calls_transparent_clear:
  "blendPixels False 0 0 1 [1, 0, 0, 0] Normal 0 buf_white0 = Inr buf_zero"
proof -
  have b: "blendPixel buf_white0 0 0 (1, 0, 0, 0) Normal = Inr buf_zero"
    by (simp add: blendPixel_def offset_def buf_white0_def blend_at_def Let_def rd_def put4_list
        store_zero buf_zero_def binary64_zero binary64_one)
  have "blendPixels False 0 0 1 [1, 0, 0, 0] Normal 0 buf_white0
          = blendPixels False 0 0 1 [1, 0, 0, 0] Normal 1 buf_zero"
    using b by (subst blendPixels.simps) (simp add: rd_def)
  also have "\<dots> = Inr buf_zero"
    by (subst blendPixels.simps) simp
  finally show ?thesis .
qed

text \<open>
  Claim C1 as stated fails at a source alpha of 0 over a stored alpha of 0: the row path
  leaves the pixel (1, 1, 1, 0) as it is, the checked call turns it into (0, 0, 0, 0).
\<close>

theorem row_skip_differs:
  "buffer_ok buf_white0
   \<and> blendRowUnchecked buf_white0 0 0 1 [1, 0, 0, 0] Normal = buf_white0
   \<and> blendPixels False 0 0 1 [1, 0, 0, 0] Normal 0 buf_white0 = Inr buf_zero
   \<and> data buf_white0 = [1, 1, 1, 0] \<and> data buf_zero = [0, 0, 0, 0]
   \<and> blendPixels False 0 0 1 [1, 0, 0, 0] Normal 0 buf_white0
        \<noteq> Inr (blendRowUnchecked buf_white0 0 0 1 [1, 0, 0, 0] Normal)"
  using buf_white0_ok row_transparent_keeps calls_transparent_clear
  by (simp add: buf_white0_def buf_zero_def)

section \<open>The export pipeline\<close>

lemma new_ToneMapper_depth8:
  assumes "new_ToneMapper \<lparr>algorithm = alg, exposure = e, gamma = g, outputDepth = Some 8\<rparr> = Inr tm"
  shows "tmOutputDepth tm = 8" "maxVal tm = 255"
proof -
  show d: "tmOutputDepth tm = 8"
    using new_ToneMapper_props(3) [OF assms] by simp
  show "maxVal tm = 255"
    using new_ToneMapper_props(2) [OF assms] d by simp
qed

lemma map_depth8:
  assumes "tmOutputDepth tm = 8" "ToneMapper_map tm buffer = Inr arr"
  shows "\<exists>bs. arr = Uint8Array bs \<and> int (length bs) = width buffer * height buffer * 4"
proof -
  have nn: "\<not> width buffer * height buffer * 4 < 0"
    using assms(2) unfolding ToneMapper_map_def Let_def
    by (cases "width buffer * height buffer * 4 < 0") simp_all
  have len: "\<And>q. length (map_pixel8 tm (data buffer) q) = 4"
    by (simp add: map_pixel8_def Let_def)
  have "arr = Uint8Array (concat (map (map_pixel8 tm (data buffer)) [0..<nat (width buffer * height buffer)]))"
    using assms nn unfolding ToneMapper_map_def Let_def
    by (cases "width buffer * height buffer * 4 < 0") simp_all
  moreover have "int (length (concat (map (map_pixel8 tm (data buffer)) [0..<nat (width buffer * height buffer)])))
      = width buffer * height buffer * 4"
  proof -
    have "0 \<le> width buffer * height buffer"
      using nn by linarith
    then have "int (4 * nat (width buffer * height buffer)) = width buffer * height buffer * 4"
      by linarith
    then show ?thesis
      by (simp only: length_concat_pixels [OF len])
  qed
  ultimately show ?thesis by blast
qed

lemma export_depth8:
  "PNGExporter_export enc arr \<lparr>png_width = w, png_height = h, png_dpi = d, png_depth = Some 8\<rparr> =
     (if w \<le> 0 \<or> h \<le> 0 then Inl InvalidDimensions
      else if n_le d 0 then Inl InvalidDpi
      else if int (array_length arr) \<noteq> w * h * 4 then Inl DataLengthMismatch
      else if \<not> is_Uint8Array arr then Inl Depth8RequiresUint8
      else
        case enc \<lparr>img_width = w, img_height = h, img_data = arr, img_depth = 8, channels = 4\<rparr> of
          Inl e \<Rightarrow> Inl e
        | Inr pngBytes \<Rightarrow>
            (case injectPHYs pngBytes d of
               Inl e \<Rightarrow> Inl e
             | Inr pngWithDpi \<Rightarrow> Inr \<lparr>result_data = pngWithDpi, mimeType = ''image/png''\<rparr>))"
  by (simp add: PNGExporter_export_def Let_def)



text \<open>What a successful run went through.\<close>

lemma exportBuffer_run:
  assumes "exportBuffer enc buffer options s = (s', Inr blob)"
  shows "\<exists>tm bs png.
           new_ToneMapper
               \<lparr>algorithm = Named (case toneMap options of None \<Rightarrow> ''reinhard'' | Some t \<Rightarrow> t),
                  exposure = Some (case opt_exposure options of None \<Rightarrow> 0 | Some e \<Rightarrow> e),
                  gamma = Some (case opt_gamma options of None \<Rightarrow> lit (22 / 10) | Some g \<Rightarrow> g),
                  outputDepth = Some 8\<rparr> = Inr tm
           \<and> tmOutputDepth tm = 8
           \<and> ToneMapper_map tm buffer = Inr (Uint8Array bs)
           \<and> enc \<lparr>img_width = width buffer, img_height = height buffer,
                    img_data = Uint8Array bs, img_depth = 8, channels = 4\<rparr> = Inr png
           \<and> injectPHYs png (dpi options) = Inr (blob_bytes blob)
           \<and> blob_type blob = ''image/png''
           \<and> s' = notify (onProgress options) 100 (notify (onProgress options) 90
                    (notify (onProgress options) 50 (notify (onProgress options) 0 s)))"
proof -
  define topts where "topts =
     \<lparr>algorithm = Named (case toneMap options of None \<Rightarrow> ''reinhard'' | Some t \<Rightarrow> t),
        exposure = Some (case opt_exposure options of None \<Rightarrow> 0 | Some e \<Rightarrow> e),
        gamma = Some (case opt_gamma options of None \<Rightarrow> lit (22 / 10) | Some g \<Rightarrow> g),
        outputDepth = Some 8\<rparr>"
  define popts where "popts = \<lparr>png_width = width buffer, png_height = height buffer,
                                    png_dpi = dpi options, png_depth = Some 8\<rparr>"
  define s0 where "s0 = notify (onProgress options) 0 s"
  define s50 where "s50 = notify (onProgress options) 50 s0"
  have eq: "(if (case format options of None \<Rightarrow> ''png'' | Some f \<Rightarrow> f) \<noteq> ''png''
             then (s, Inl UnsupportedFormat)
             else case new_ToneMapper topts of
                Inl e \<Rightarrow> (s0, Inl e)
              | Inr toneMapper \<Rightarrow>
                  (case ToneMapper_map toneMapper buffer of
                     Inl e \<Rightarrow> (s0, Inl e)
                   | Inr ldrData \<Rightarrow>
                       (case PNGExporter_export enc ldrData popts of
                            Inl e \<Rightarrow> (s50, Inl e)
                          | Inr result \<Rightarrow>
                              (notify (onProgress options) 100 (notify (onProgress options) 90 s50),
                               Inr \<lparr>blob_bytes = result_data result,
                                           blob_type = ''image/png''\<rparr>)))) = (s', Inr blob)"
    using assms unfolding exportBuffer_def Let_def topts_def popts_def s0_def s50_def .
  then obtain tm where tm: "new_ToneMapper topts = Inr tm"
    by (cases "new_ToneMapper topts") (simp_all split: if_splits)
  with eq obtain arr where arr: "ToneMapper_map tm buffer = Inr arr"
    by (cases "ToneMapper_map tm buffer") (simp_all split: if_splits)
  with eq tm obtain result where res: "PNGExporter_export enc arr popts = Inr result"
    by (cases "PNGExporter_export enc arr popts") (simp_all split: if_splits)
  from eq tm arr res have out: "s' = notify (onProgress options) 100 (notify (onProgress options) 90 s50)"
    "blob = \<lparr>blob_bytes = result_data result, blob_type = ''image/png''\<rparr>"
    by (simp_all split: if_splits)
  have d8: "tmOutputDepth tm = 8"
    using tm unfolding topts_def by (rule new_ToneMapper_depth8)
  from map_depth8 [OF d8 arr] obtain bs where bs: "arr = Uint8Array bs"
    by blast
  from res obtain png where png: "enc \<lparr>img_width = width buffer, img_height = height buffer,
                    img_data = arr, img_depth = 8, channels = 4\<rparr> = Inr png"
    and inj: "injectPHYs png (dpi options) = Inr (result_data result)"
    unfolding popts_def export_depth8
    by (auto split: if_splits sum.splits)
  show ?thesis
    using tm d8 arr png inj out
    unfolding topts_def bs s50_def s0_def by auto
qed


lemma notify_Some: "notify (Some cb) p s = cb p s"
  by (simp add: notify_def)

text \<open>A run succeeds when the options are valid and the encoder returns a PNG.\<close>

lemma default_gamma: "\<not> n_le (lit (22 / 10)) 0"
proof -
  from lit_bounds [of "22 / 10"] obtain r where "lit (22 / 10) = Fin r" "22 / 10 / 2 < r"
    by auto
  then show ?thesis by simp
qed

lemma exportBuffer_succeeds:
  assumes fmt: "format options = None \<or> format options = Some ''png''"
    and alg: "toneMap options = None \<or> toneMap options = Some ''clamp''
                \<or> toneMap options = Some ''reinhard'' \<or> toneMap options = Some ''aces''"
    and g: "opt_gamma options = None \<or> (\<exists>g. opt_gamma options = Some g \<and> \<not> n_le g 0)"
    and dims: "0 < width buffer" "0 < height buffer" and d: "\<not> n_le (dpi options) 0"
    and enc: "\<And>img. \<exists>png. enc img = Inr png \<and> take 4 png = [0x89, 0x50, 0x4e, 0x47]
                \<and> 33 \<le> length png"
  shows "\<exists>s' blob. exportBuffer enc buffer options s = (s', Inr blob)"
proof -
  define topts where "topts =
     \<lparr>algorithm = Named (case toneMap options of None \<Rightarrow> ''reinhard'' | Some t \<Rightarrow> t),
        exposure = Some (case opt_exposure options of None \<Rightarrow> 0 | Some e \<Rightarrow> e),
        gamma = Some (case opt_gamma options of None \<Rightarrow> lit (22 / 10) | Some g \<Rightarrow> g),
        outputDepth = Some 8\<rparr>"
  have f: "(case format options of None \<Rightarrow> ''png'' | Some f \<Rightarrow> f) = ''png''"
    using fmt by auto
  have "\<exists>fn. TONE_MAP_ALGORITHMS (case toneMap options of None \<Rightarrow> ''reinhard'' | Some t \<Rightarrow> t) = Some fn"
    using alg by (auto simp: TONE_MAP_ALGORITHMS_def)
  moreover have "\<not> n_le (case opt_gamma options of None \<Rightarrow> lit (22 / 10) | Some g \<Rightarrow> g) 0"
    using g default_gamma by auto
  ultimately obtain tm where tm: "new_ToneMapper topts = Inr tm"
    by (auto simp: new_ToneMapper_def topts_def)
  have d8: "tmOutputDepth tm = 8"
    using tm unfolding topts_def by (rule new_ToneMapper_depth8)
  have pos: "0 < width buffer * height buffer"
    using dims by simp
  then have "\<exists>arr. ToneMapper_map tm buffer = Inr arr"
    by (simp add: ToneMapper_map_def Let_def d8)
  then obtain arr where arr: "ToneMapper_map tm buffer = Inr arr"
    by blast
  from map_depth8 [OF d8 arr] obtain bs where bs: "arr = Uint8Array bs"
    "int (length bs) = width buffer * height buffer * 4"
    by blast
  from enc obtain png where png: "enc \<lparr>img_width = width buffer, img_height = height buffer,
      img_data = arr, img_depth = 8, channels = 4\<rparr> = Inr png"
    "take 4 png = [0x89, 0x50, 0x4e, 0x47]" "33 \<le> length png"
    by blast
  have inj: "injectPHYs png (dpi options)
      = Inr (take 33 png @ buildPHYsChunk (dpi options) @ drop 33 png)"
    by (rule injectPHYs_long [OF png(2,3)])
  have "PNGExporter_export enc arr \<lparr>png_width = width buffer, png_height = height buffer,
          png_dpi = dpi options, png_depth = Some 8\<rparr>
        = Inr \<lparr>result_data = take 33 png @ buildPHYsChunk (dpi options) @ drop 33 png,
               mimeType = ''image/png''\<rparr>"
    using dims d bs png(1) inj
    by (simp add: export_depth8 array_length_def is_Uint8Array_def)
  then show ?thesis
    using f tm arr unfolding exportBuffer_def Let_def topts_def [symmetric] by simp
qed

text \<open>
  Claim C9. In every successful run of \<open>exportBuffer\<close> with a callback, the callback is
  run on 0, 50, 90 and 100, in this order and on nothing else: at least four times,
  with percentages that never decrease, the first 0 and the last 100.
\<close>

theorem exportBuffer_progress:
  "(exportBuffer enc buffer options s = (s', Inr blob) \<and> onProgress options = Some cb
      \<longrightarrow> s' = cb 100 (cb 90 (cb 50 (cb 0 s))))
   \<and> (exportBuffer enc buffer (opts\<lparr>onProgress := Some (\<lambda>percent log. log @ [percent])\<rparr>) []
        = (ps, Inr blob')
      \<longrightarrow> progress_log enc buffer opts = ps \<and> ps = [0, 50, 90, 100] \<and> 4 \<le> length ps
          \<and> sorted ps \<and> hd ps = 0 \<and> last ps = 100)"
proof -
  have a: "s' = cb 100 (cb 90 (cb 50 (cb 0 s)))"
    if "exportBuffer enc buffer options s = (s', Inr blob)" "onProgress options = Some cb"
    using exportBuffer_run [OF that(1)] by (auto simp: that(2) notify_Some)
  have b: "progress_log enc buffer opts = ps \<and> ps = [0, 50, 90, 100] \<and> 4 \<le> length ps
          \<and> sorted ps \<and> hd ps = 0 \<and> last ps = 100"
    if r: "exportBuffer enc buffer (opts\<lparr>onProgress := Some (\<lambda>percent log. log @ [percent])\<rparr>) []
        = (ps, Inr blob')"
  proof -
    have "ps = [0, 50, 90, 100]"
      using exportBuffer_run [OF r] by (auto simp: notify_Some)
    moreover have "progress_log enc buffer opts = ps"
      by (simp add: progress_log_def r)
    ultimately show ?thesis by simp
  qed
  from a b show ?thesis by blast
qed

lemma stub_encoder_png:
  "\<exists>png. stub_encoder img = Inr png \<and> take 4 png = [0x89, 0x50, 0x4e, 0x47] \<and> 33 \<le> length png"
  by (simp add: stub_encoder_def PNG_SIGNATURE_def)

lemma default_run:
  "\<exists>ps blob. exportBuffer stub_encoder buf_zero default_options [] = (ps, Inr blob)"
  by (rule exportBuffer_succeeds [OF _ _ _ _ _ _ stub_encoder_png])
    (simp_all add: default_options_def buf_zero_def)

theorem exportBuffer_progress_witness:
  "progress_log stub_encoder buf_zero default_options = [0, 50, 90, 100]
   \<and> fst (exportBuffer stub_encoder buf_zero default_options []) = [0, 50, 90, 100]"
proof -
  obtain ps blob where r: "exportBuffer stub_encoder buf_zero default_options [] = (ps, Inr blob)"
    using default_run by blast
  have o: "onProgress default_options = Some (\<lambda>percent log. log @ [percent])"
    "default_options\<lparr>onProgress := Some (\<lambda>percent log. log @ [percent])\<rparr> = default_options"
    by (simp_all add: default_options_def)
  from exportBuffer_progress [of stub_encoder buf_zero default_options "[]" ps blob
      "\<lambda>percent log. log @ [percent]" default_options ps blob] r o
  have "ps = [0, 50, 90, 100]" "progress_log stub_encoder buf_zero default_options = ps"
    by simp_all
  then show ?thesis using r by simp
qed






end
